theory Spec2Isabelle
  imports Main "HOL-Library.Word" "HOL-Library.Signed_Division"
begin

section \<open>The strongly-see ancestry index (posposet/seeing/strongly.go)\<close>

subsection \<open>Data\<close>

text \<open>
  \<open>hash.Peer\<close>, \<open>hash.Event\<close> and \<open>idx.Event\<close> are declared outside the two source
  files. The index only compares them: peers and event hashes are map keys, the zero hash
  (\<open>IsZero\<close>) is \<open>0\<close>, and sequence numbers are only compared with each other and with
  zero. \<open>Index\<close> stands for the converted value \<open>idx.Event(e.Index)\<close>.
\<close>

type_synonym peer = nat
type_synonym hash = nat
type_synonym idx = nat

text \<open>
  The fields of \<open>inter.Event\<close> that strongly.go reads. \<open>Parents\<close> is a Go map keyed by
  hash (\<open>for p := range e.Parents\<close> yields hashes); the list gives the order in which the
  range statement happens to visit the keys.
\<close>

record inter_Event =
  Hash :: hash
  Creator :: peer
  Index :: idx
  Parents :: "hash list"

text \<open>The ancestry record \<open>seeing.Event\<close>: it embeds the event and adds the slot and the
  two per-slot arrays.\<close>

record Event = inter_Event +
  CreatorN :: nat
  LowestSees :: "idx list"
  HighestSeen :: "idx list"

text \<open>
  Modelled from the spec: \<open>internal.Members\<close> is not in the source files. The spec
  describes a mapping from validator identity to voting weight with a majority-weight
  threshold. \<open>weights\<close> holds the entries of the map in the order a range statement
  visits them (\<open>len(ss.members)\<close> is its length), \<open>quorum\<close> is the threshold.
\<close>

record Members =
  weights :: "(peer \<times> nat) list"
  quorum :: nat

text \<open>Modelled from the spec: the weight of a validator in the set (no weight for a
  validator outside it); the code of \<open>internal.Members\<close> is not in the source files.\<close>

definition weightOf :: "Members \<Rightarrow> peer \<Rightarrow> nat" where
  "weightOf mm m = (case map_of (weights mm) m of None \<Rightarrow> 0 | Some w \<Rightarrow> w)"

text \<open>Modelled from the spec: \<open>NewCounter\<close> is not in the source files. A counter is the
  weight counted so far, and a new one has counted nothing.\<close>

definition NewCounter :: "Members \<Rightarrow> nat" where
  "NewCounter mm = 0"

text \<open>Modelled from the spec: \<open>Count\<close> is not in the source files. Counting a validator
  adds its weight (the spec's weighted count).\<close>

definition Count :: "Members \<Rightarrow> nat \<Rightarrow> peer \<Rightarrow> nat" where
  "Count mm c m = c + weightOf mm m"

text \<open>Modelled from the spec: \<open>HasMajority\<close> is not in the source files. The counted weight
  reaches the majority threshold of the set.\<close>

definition HasMajority :: "Members \<Rightarrow> nat \<Rightarrow> bool" where
  "HasMajority mm c = (quorum mm \<le> c)"

text \<open>
  The engine. Ancestry records live on the heap and are reached only through \<open>events\<close>,
  each under its own hash, so the hash is the address of the record: \<open>events\<close> is the
  store. A pointer \<open>*Event\<close> is \<open>Some h\<close> for the record stored under \<open>h\<close>, and \<open>None\<close>
  is \<open>nil\<close>. \<open>nodes\<close> is the creator-slot table in insertion order.
\<close>

type_synonym store = "hash \<rightharpoonup> Event"
type_synonym ptr = "hash option"

record Strongly =
  members :: Members
  nodes :: "(peer \<times> nat) list"
  events :: store

datatype error =
  Fatal_already_exists
  | Nil_dereference
  | Index_out_of_range
  | Division_by_zero

subsection \<open>Operations\<close>

definition Reset :: "Members \<Rightarrow> Strongly" where
  "Reset mm = \<lparr>members = mm, nodes = [], events = Map.empty\<rparr>"

text \<open>\<open>ss.events[p]\<close>: the pointer stored under \<open>p\<close>, \<open>nil\<close> when the key is missing.\<close>

definition lookup :: "store \<Rightarrow> hash \<Rightarrow> ptr" where
  "lookup es p = (case es p of None \<Rightarrow> None | Some r \<Rightarrow> Some p)"

definition setNodes :: "Strongly \<Rightarrow> Event \<Rightarrow> Strongly \<times> Event" where
  "setNodes ss e =
     (case map_of (nodes ss) (Creator e) of
        Some n \<Rightarrow> (ss, e\<lparr>CreatorN := n\<rparr>)
      | None \<Rightarrow>
          (ss\<lparr>nodes := nodes ss @ [(Creator e, length (nodes ss))]\<rparr>,
           e\<lparr>CreatorN := length (nodes ss)\<rparr>))"

definition setLowestSeesIfMin :: "Event \<Rightarrow> nat \<Rightarrow> idx \<Rightarrow> error + (Event \<times> bool)" where
  "setLowestSeesIfMin e node ref =
     (if length (LowestSees e) \<le> node then Inl Index_out_of_range
      else if LowestSees e ! node = 0 \<or> LowestSees e ! node > ref \<or>
              (node = CreatorN e \<and> LowestSees e ! node \<le> Index e)
      then Inr (e\<lparr>LowestSees := (LowestSees e)[node := ref]\<rparr>, True)
      else Inr (e, False))"

text \<open>The inner \<open>for _, event := range toUpdate\<close> of \<open>updateAllLowestSees\<close>: it updates
  the records in the store and appends to \<open>next\<close>.\<close>

fun lowestSeesPass ::
  "store \<Rightarrow> nat \<Rightarrow> idx \<Rightarrow> ptr list \<Rightarrow> ptr list \<Rightarrow> error + (store \<times> ptr list)" where
  "lowestSeesPass es node ref [] next = Inr (es, next)"
| "lowestSeesPass es node ref (p # ps) next =
     (case p of
        None \<Rightarrow> Inl Nil_dereference
      | Some a \<Rightarrow>
          (case es a of
             None \<Rightarrow> Inl Nil_dereference
           | Some r \<Rightarrow>
               (case setLowestSeesIfMin r node ref of
                  Inl err \<Rightarrow> Inl err
                | Inr (r', ok) \<Rightarrow>
                    if \<not> ok then lowestSeesPass es node ref ps next
                    else lowestSeesPass (es(a \<mapsto> r')) node ref ps
                           (next @ map (lookup (es(a \<mapsto> r')))
                                     (filter (\<lambda>p. p \<noteq> 0) (Parents r'))))))"

text \<open>The outer \<open>for { ... }\<close>: \<open>None\<close> is a walk that never reaches an empty worklist.\<close>

partial_function (option) lowestSeesLoop ::
  "store \<Rightarrow> nat \<Rightarrow> idx \<Rightarrow> ptr list \<Rightarrow> (error + store) option" where
  "lowestSeesLoop es node ref toUpdate =
     (case lowestSeesPass es node ref toUpdate [] of
        Inl err \<Rightarrow> Some (Inl err)
      | Inr (es', next) \<Rightarrow>
          if next = [] then Some (Inr es') else lowestSeesLoop es' node ref next)"

definition updateAllLowestSees :: "store \<Rightarrow> ptr \<Rightarrow> nat \<Rightarrow> idx \<Rightarrow> (error + store) option" where
  "updateAllLowestSees es e node ref = lowestSeesLoop es node ref [e]"

text \<open>\<open>for i, n := range parent.HighestSeen\<close>, from index \<open>i\<close> on.\<close>

fun highestSeenLoop :: "idx list \<Rightarrow> nat \<Rightarrow> idx list \<Rightarrow> error + idx list" where
  "highestSeenLoop hs i [] = Inr hs"
| "highestSeenLoop hs i (n # ns) =
     (if length hs \<le> i then Inl Index_out_of_range
      else highestSeenLoop (if hs ! i < n then hs[i := n] else hs) (Suc i) ns)"

definition updateAllHighestSeen :: "store \<Rightarrow> Event \<Rightarrow> ptr \<Rightarrow> error + Event" where
  "updateAllHighestSeen es e parent =
     (case parent of
        None \<Rightarrow> Inl Nil_dereference
      | Some a \<Rightarrow>
          (case es a of
             None \<Rightarrow> Inl Nil_dereference
           | Some r \<Rightarrow>
               (case highestSeenLoop (HighestSeen e) 0 (HighestSeen r) of
                  Inl err \<Rightarrow> Inl err
                | Inr hs \<Rightarrow> Inr (e\<lparr>HighestSeen := hs\<rparr>))))"

text \<open>The \<open>for p := range e.Parents\<close> of \<open>fillEventRefs\<close>.\<close>

fun fillParents ::
  "store \<Rightarrow> Event \<Rightarrow> hash list \<Rightarrow> (error + (store \<times> Event)) option" where
  "fillParents es e [] = Some (Inr (es, e))"
| "fillParents es e (p # ps) =
     (if p = 0 then fillParents es e ps
      else
        (case updateAllLowestSees es (lookup es p) (CreatorN e) (Index e) of
           None \<Rightarrow> None
         | Some (Inl err) \<Rightarrow> Some (Inl err)
         | Some (Inr es') \<Rightarrow>
             (case updateAllHighestSeen es' e (lookup es p) of
                Inl err \<Rightarrow> Some (Inl err)
              | Inr e' \<Rightarrow> fillParents es' e' ps)))"

definition fillEventRefs :: "store \<Rightarrow> Event \<Rightarrow> (error + (store \<times> Event)) option" where
  "fillEventRefs es e =
     (if length (LowestSees e) \<le> CreatorN e then Some (Inl Index_out_of_range)
      else if length (HighestSeen e) \<le> CreatorN e then Some (Inl Index_out_of_range)
      else fillParents es
             (e\<lparr>LowestSees := (LowestSees e)[CreatorN e := Index e],
                HighestSeen := (HighestSeen e)[CreatorN e := Index e]\<rparr>)
             (Parents e))"

text \<open>The record \<open>Add\<close> allocates: both arrays zeroed, of length \<open>len(ss.members)\<close>.\<close>

definition newEvent :: "Strongly \<Rightarrow> inter_Event \<Rightarrow> Event" where
  "newEvent ss e =
     \<lparr>Hash = Hash e, Creator = Creator e, Index = Index e, Parents = Parents e,
      CreatorN = 0,
      LowestSees = replicate (length (weights (members ss))) 0,
      HighestSeen = replicate (length (weights (members ss))) 0\<rparr>"

definition Add :: "Strongly \<Rightarrow> inter_Event \<Rightarrow> (error + Strongly) option" where
  "Add ss e =
     (if events ss (Hash e) \<noteq> None then Some (Inl Fatal_already_exists)
      else
        (case setNodes ss (newEvent ss e) of
           (ss1, event) \<Rightarrow>
             (case fillEventRefs (events ss1) event of
                None \<Rightarrow> None
              | Some (Inl err) \<Rightarrow> Some (Inl err)
              | Some (Inr (es, event')) \<Rightarrow>
                  Some (Inr (ss1\<lparr>events := es(Hash e \<mapsto> event')\<rparr>)))))"

text \<open>The loop of \<open>sufficientCoherence\<close> over the members; \<open>ss.nodes[m]\<close> is \<open>0\<close> for a
  missing key.\<close>

definition slotOf :: "(peer \<times> nat) list \<Rightarrow> peer \<Rightarrow> nat" where
  "slotOf nd m = (case map_of nd m of None \<Rightarrow> 0 | Some n \<Rightarrow> n)"

fun coherenceLoop ::
  "Strongly \<Rightarrow> Event option \<Rightarrow> Event option \<Rightarrow> (peer \<times> nat) list \<Rightarrow> nat \<Rightarrow> error + nat" where
  "coherenceLoop ss event1 event2 [] counter = Inr counter"
| "coherenceLoop ss event1 event2 (mw # ms) counter =
     (case event2 of
        None \<Rightarrow> Inl Nil_dereference
      | Some b \<Rightarrow>
          if length (LowestSees b) \<le> slotOf (nodes ss) (fst mw) then Inl Index_out_of_range
          else
            (case event1 of
               None \<Rightarrow> Inl Nil_dereference
             | Some a \<Rightarrow>
                 if length (HighestSeen a) \<le> slotOf (nodes ss) (fst mw)
                 then Inl Index_out_of_range
                 else if LowestSees b ! slotOf (nodes ss) (fst mw)
                           \<le> HighestSeen a ! slotOf (nodes ss) (fst mw) \<and>
                         LowestSees b ! slotOf (nodes ss) (fst mw) \<noteq> 0
                 then coherenceLoop ss event1 event2 ms (Count (members ss) counter (fst mw))
                 else coherenceLoop ss event1 event2 ms counter))"

definition sufficientCoherence :: "Strongly \<Rightarrow> Event option \<Rightarrow> Event option \<Rightarrow> error + bool" where
  "sufficientCoherence ss event1 event2 =
     (case coherenceLoop ss event1 event2 (weights (members ss)) (NewCounter (members ss)) of
        Inl err \<Rightarrow> Inl err
      | Inr counter \<Rightarrow> Inr (HasMajority (members ss) counter))"

definition See :: "Strongly \<Rightarrow> hash \<Rightarrow> hash \<Rightarrow> error + bool" where
  "See ss who whom = sufficientCoherence ss (events ss who) (events ss whom)"

section \<open>Admission-controlled transaction packing (gossip/emitter.go)\<close>

subsection \<open>Data\<close>

text \<open>
  Gas amounts are \<open>uint64\<close>; \<open>time.Duration\<close> is \<open>int64\<close>, kept as a 64-bit word that
  is read signed where the code compares or divides durations.
\<close>

type_synonym u64 = "64 word"
type_synonym duration = "64 word"

text \<open>A pending transaction: \<open>Gas\<close> is \<open>tx.Gas()\<close>, the nonce tells transactions of one
  sender apart.\<close>

record Transaction =
  Nonce :: nat
  Gas :: u64

text \<open>The fields of the event under construction that \<open>addTxs\<close>, \<open>maxGasPowerToUse\<close>
  and \<open>isAllowedToEmit\<close> use.\<close>

record emitted_Event =
  GasPowerUsed :: u64
  GasPowerLeft :: u64
  Transactions :: "Transaction list"

text \<open>The self-parent's header, \<open>*inter.EventHeaderData\<close>; only its \<open>GasPowerLeft\<close> is
  read.\<close>

record header =
  parentGasPowerLeft :: u64

text \<open>
  What the emitter reads from \<open>em.dag.GasPower\<close> and \<open>em.config\<close>, together with the
  constants \<open>basic_check.MaxGasPowerUsed\<close> and \<open>basic_check.MaxEventSize\<close>, which are
  declared outside the source files and so are fields here.
\<close>

record Emitter =
  NoTxsThreshold :: u64
  GasPowerControlThreshold :: u64
  EmergencyThreshold :: u64
  MinEmitInterval :: duration
  MaxEmitInterval :: duration
  MaxGasPowerUsed :: u64
  MaxEventSize :: u64

subsection \<open>Operations\<close>

text \<open>
  \<open>smoothed\<close> is the value of the floating-point expression
  \<open>uint64(float64(elapsed) * em.gasRate.Rate1() * em.config.MaxGasRateGrowthFactor)\<close>.
\<close>

definition maxGasPowerToUse :: "Emitter \<Rightarrow> u64 \<Rightarrow> emitted_Event \<Rightarrow> u64" where
  "maxGasPowerToUse em smoothed e =
     (if GasPowerLeft e \<le> NoTxsThreshold em then 0
      else if GasPowerLeft e \<le> GasPowerControlThreshold em
      then (if smoothed > MaxGasPowerUsed em then MaxGasPowerUsed em else smoothed)
      else MaxGasPowerUsed em)"

text \<open>The inner \<open>for _, tx := range txs\<close>: \<open>txs\<close> is the whole group of the sender,
  the third argument what is left of it to visit.\<close>

fun packGroup :: "u64 \<Rightarrow> Transaction list \<Rightarrow> Transaction list \<Rightarrow> emitted_Event \<Rightarrow> emitted_Event" where
  "packGroup maxGasUsed txs [] e = e"
| "packGroup maxGasUsed txs (tx # rest) e =
     (if Gas tx < GasPowerLeft e \<and> GasPowerUsed e + Gas tx < maxGasUsed
      then packGroup maxGasUsed txs rest
             (e\<lparr>GasPowerUsed := GasPowerUsed e + Gas tx,
                GasPowerLeft := GasPowerLeft e - Gas tx,
                Transactions := Transactions e @ txs\<rparr>)
      else packGroup maxGasUsed txs rest e)"

text \<open>The outer \<open>for _, txs := range poolTxs\<close>, the groups in the order the range
  statement visits the senders.\<close>

fun packTxs :: "u64 \<Rightarrow> Transaction list list \<Rightarrow> emitted_Event \<Rightarrow> emitted_Event" where
  "packTxs maxGasUsed [] e = e"
| "packTxs maxGasUsed (txs # groups) e = packTxs maxGasUsed groups (packGroup maxGasUsed txs txs e)"

text \<open>The spill loop. \<open>calcSize\<close> is \<open>uint64(e.CalcSize())\<close>, the serialized size, whose
  code is outside the source files.\<close>

function spillTxs :: "(emitted_Event \<Rightarrow> u64) \<Rightarrow> u64 \<Rightarrow> emitted_Event \<Rightarrow> emitted_Event" where
  "spillTxs calcSize maxSize e =
     (if calcSize e > maxSize \<and> length (Transactions e) > 0
      then spillTxs calcSize maxSize
             (e\<lparr>GasPowerUsed := GasPowerUsed e - Gas (last (Transactions e)),
                GasPowerLeft := GasPowerLeft e + Gas (last (Transactions e)),
                Transactions := butlast (Transactions e)\<rparr>)
      else e)"
  by pat_completeness auto
termination
  by (relation "measure (\<lambda>(calcSize, maxSize, e). length (Transactions e))") auto

declare spillTxs.simps [simp del]

text \<open>\<open>pending\<close> is the result of \<open>em.txpool.Pending()\<close>: \<open>None\<close> when it returns an
  error.\<close>

definition addTxs ::
  "Emitter \<Rightarrow> (emitted_Event \<Rightarrow> u64) \<Rightarrow> u64 \<Rightarrow> Transaction list list option \<Rightarrow>
   emitted_Event \<Rightarrow> emitted_Event" where
  "addTxs em calcSize smoothed pending e =
     (case pending of
        None \<Rightarrow> e
      | Some poolTxs \<Rightarrow>
          spillTxs calcSize (MaxEventSize em)
            (packTxs (maxGasPowerToUse em smoothed e) poolTxs e))"

text \<open>Go's \<open>/\<close> on \<open>int64\<close>: it truncates towards zero and wraps at the one overflow.\<close>

definition div_int64 :: "duration \<Rightarrow> duration \<Rightarrow> duration" where
  "div_int64 a b = word_of_int (sint a sdiv sint b)"

text \<open>The local \<open>adjustedEmitInterval\<close> of \<open>isAllowedToEmit\<close>.\<close>

definition adjustedEmitInterval :: "Emitter \<Rightarrow> emitted_Event \<Rightarrow> duration" where
  "adjustedEmitInterval em e =
     MaxEmitInterval em -
       div_int64 ((MaxEmitInterval em - MinEmitInterval em) * GasPowerLeft e)
                 (NoTxsThreshold em)"

text \<open>
  The second block of \<open>isAllowedToEmit\<close>. With a \<open>nil\<close> self-parent the arguments of
  \<open>log.Warn\<close> dereference it.
\<close>

definition powerGate :: "Emitter \<Rightarrow> emitted_Event \<Rightarrow> header option \<Rightarrow> error + bool" where
  "powerGate em e selfParent =
     (if GasPowerLeft e \<le> EmergencyThreshold em
      then (case selfParent of
              None \<Rightarrow> Inl Nil_dereference
            | Some sp \<Rightarrow>
                if \<not> (GasPowerLeft e \<ge> parentGasPowerLeft sp) then Inr False else Inr True)
      else Inr True)"

text \<open>
  \<open>elapsed\<close> is the value of \<open>e.ClaimedTime.Time().Sub(em.prevEmittedTime)\<close>. A zero
  \<open>NoTxsThreshold\<close> makes the division of the first block panic.
\<close>

definition isAllowedToEmit ::
  "Emitter \<Rightarrow> duration \<Rightarrow> emitted_Event \<Rightarrow> header option \<Rightarrow> error + bool" where
  "isAllowedToEmit em elapsed e selfParent =
     (if GasPowerLeft e \<le> NoTxsThreshold em
      then if NoTxsThreshold em = 0 then Inl Division_by_zero
           else if elapsed <s adjustedEmitInterval em e then Inr False
                else powerGate em e selfParent
      else powerGate em e selfParent)"

section \<open>Notions used in the statements\<close>

subsection \<open>Packing\<close>

text \<open>The event after the spill loop has popped all but the first \<open>k\<close> transactions and
  refunded the gas of each popped one.\<close>

definition refundTail :: "emitted_Event \<Rightarrow> nat \<Rightarrow> emitted_Event" where
  "refundTail e k =
     e\<lparr>GasPowerUsed := GasPowerUsed e - sum_list (map Gas (drop k (Transactions e))),
       GasPowerLeft := GasPowerLeft e + sum_list (map Gas (drop k (Transactions e))),
       Transactions := take k (Transactions e)\<rparr>"

subsection \<open>Ancestry index\<close>

text \<open>The test of \<open>setLowestSeesIfMin\<close>: the slot is unset, or the candidate is smaller,
  or the slot is the record's own and still holds at most the record's own sequence
  number.\<close>

definition accepted :: "nat \<Rightarrow> idx \<Rightarrow> Event \<Rightarrow> bool" where
  "accepted node ref r \<longleftrightarrow>
     LowestSees r ! node = 0 \<or> ref < LowestSees r ! node \<or>
     (node = CreatorN r \<and> LowestSees r ! node \<le> Index r)"

text \<open>What one walk for slot \<open>node\<close> and candidate \<open>ref\<close> may do to a record: nothing, or
  an accepted write of \<open>ref\<close> into \<open>LowestSees[node]\<close>.\<close>

definition lowered :: "nat \<Rightarrow> idx \<Rightarrow> Event \<Rightarrow> Event \<Rightarrow> bool" where
  "lowered node ref r r' \<longleftrightarrow>
     r' = r \<or>
     (node < length (LowestSees r) \<and> accepted node ref r \<and>
      r' = r\<lparr>LowestSees := (LowestSees r)[node := ref]\<rparr>)"

text \<open>The same for a store: the keys stay, each record is \<open>lowered\<close>.\<close>

definition walked :: "nat \<Rightarrow> idx \<Rightarrow> store \<Rightarrow> store \<Rightarrow> bool" where
  "walked node ref es es' \<longleftrightarrow>
     (\<forall>h. es h = None \<longrightarrow> es' h = None) \<and>
     (\<forall>h r. es h = Some r \<longrightarrow> (\<exists>r'. es' h = Some r' \<and> lowered node ref r r'))"

text \<open>What \<open>updateAllHighestSeen\<close> may do to the event under construction: only
  \<open>HighestSeen\<close> changes, and no entry gets smaller.\<close>

definition raised :: "Event \<Rightarrow> Event \<Rightarrow> bool" where
  "raised e e' \<longleftrightarrow>
     (\<exists>hs. e' = e\<lparr>HighestSeen := hs\<rparr> \<and> length hs = length (HighestSeen e) \<and>
           (\<forall>j<length hs. HighestSeen e ! j \<le> hs ! j))"

text \<open>The slot and the slot table that \<open>setNodes\<close> produces for an event, and the record
  after the self-seeding of \<open>fillEventRefs\<close>.\<close>

definition creatorSlot :: "Strongly \<Rightarrow> inter_Event \<Rightarrow> nat" where
  "creatorSlot ss e =
     (case map_of (nodes ss) (Creator e) of Some n \<Rightarrow> n | None \<Rightarrow> length (nodes ss))"

definition nodesAfter :: "Strongly \<Rightarrow> inter_Event \<Rightarrow> (peer \<times> nat) list" where
  "nodesAfter ss e =
     (case map_of (nodes ss) (Creator e) of
        Some n \<Rightarrow> nodes ss
      | None \<Rightarrow> nodes ss @ [(Creator e, length (nodes ss))])"

definition seeded :: "Strongly \<Rightarrow> inter_Event \<Rightarrow> Event" where
  "seeded ss e =
     \<lparr>Hash = Hash e, Creator = Creator e, Index = Index e, Parents = Parents e,
      CreatorN = creatorSlot ss e,
      LowestSees = (replicate (length (weights (members ss))) 0)[creatorSlot ss e := Index e],
      HighestSeen = (replicate (length (weights (members ss))) 0)[creatorSlot ss e := Index e]\<rparr>"

text \<open>Invariants of the store: arrays of the validator-set size and parents present; and
  a rank that every parent link decreases (the store is a DAG).\<close>

definition storeOK :: "nat \<Rightarrow> store \<Rightarrow> bool" where
  "storeOK L es \<longleftrightarrow>
     (\<forall>h r. es h = Some r \<longrightarrow>
        length (LowestSees r) = L \<and> length (HighestSeen r) = L \<and>
        (\<forall>p\<in>set (Parents r). p \<noteq> 0 \<longrightarrow> es p \<noteq> None))"

definition ranked :: "(hash \<Rightarrow> nat) \<Rightarrow> store \<Rightarrow> bool" where
  "ranked rank es \<longleftrightarrow>
     (\<forall>h r. es h = Some r \<longrightarrow> (\<forall>p\<in>set (Parents r). p \<noteq> 0 \<longrightarrow> rank p < rank h))"

text \<open>A worklist of non-nil pointers to stored records of rank below \<open>k\<close>.\<close>

definition inWork :: "store \<Rightarrow> (hash \<Rightarrow> nat) \<Rightarrow> nat \<Rightarrow> ptr list \<Rightarrow> bool" where
  "inWork es rank k ps \<longleftrightarrow> (\<forall>p\<in>set ps. \<exists>a. p = Some a \<and> es a \<noteq> None \<and> rank a < k)"

definition wellFormed :: "Strongly \<Rightarrow> bool" where
  "wellFormed ss \<longleftrightarrow>
     storeOK (length (weights (members ss))) (events ss) \<and>
     (\<exists>rank. ranked rank (events ss)) \<and>
     map snd (nodes ss) = [0..<length (nodes ss)] \<and>
     distinct (map fst (nodes ss)) \<and>
     length (nodes ss) \<le> length (weights (members ss)) \<and>
     fst ` set (nodes ss) = {Creator r |r h. events ss h = Some r}"

text \<open>The states of the engine: after \<open>Reset\<close>, and after every \<open>Add\<close> that returned
  without a fatal error or panic. A parent that is not indexed yet makes \<open>Add\<close> panic, so
  these are the states built by inserting parents before children.\<close>

inductive reachable :: "Strongly \<Rightarrow> bool" where
  reset: "reachable (Reset mm)"
| add: "reachable ss \<Longrightarrow> Add ss e = Some (Inr ss') \<Longrightarrow> reachable ss'"

text \<open>
  The test as the loop of \<open>sufficientCoherence\<close> evaluates it for a member \<open>m\<close>: the entries
  are read at \<open>ss.nodes[m]\<close>, which is slot 0 for a member without an entry in the slot
  table; and the weight the loop counts.
\<close>

definition coherent :: "Strongly \<Rightarrow> Event \<Rightarrow> Event \<Rightarrow> peer \<Rightarrow> bool" where
  "coherent ss event1 event2 m \<longleftrightarrow>
     LowestSees event2 ! slotOf (nodes ss) m \<noteq> 0 \<and>
     LowestSees event2 ! slotOf (nodes ss) m \<le> HighestSeen event1 ! slotOf (nodes ss) m"

definition coherentWeight :: "Strongly \<Rightarrow> Event \<Rightarrow> Event \<Rightarrow> nat" where
  "coherentWeight ss event1 event2 =
     sum_list (map (weightOf (members ss))
                (filter (coherent ss event1 event2) (map fst (weights (members ss)))))"

text \<open>
  The count as the spec words it: a validator passes when its own entries satisfy
  \<open>event2.LowestSees[n] != 0\<close> and \<open>event2.LowestSees[n] \<le> event1.HighestSeen[n]\<close>. The
  entries of a validator are those at the slot it was given when its first event was
  added; a validator that has created no indexed event has no entries of its own (its
  \<open>LowestSees\<close> is the spec's 0, unknown), so it does not pass.
\<close>

definition ownCoherent :: "Strongly \<Rightarrow> Event \<Rightarrow> Event \<Rightarrow> peer \<Rightarrow> bool" where
  "ownCoherent ss event1 event2 m \<longleftrightarrow>
     (case map_of (nodes ss) m of
        None \<Rightarrow> False
      | Some n \<Rightarrow> LowestSees event2 ! n \<noteq> 0 \<and> LowestSees event2 ! n \<le> HighestSeen event1 ! n)"

definition ownWeight :: "Strongly \<Rightarrow> Event \<Rightarrow> Event \<Rightarrow> nat" where
  "ownWeight ss event1 event2 =
     sum_list (map (weightOf (members ss))
                (filter (ownCoherent ss event1 event2) (map fst (weights (members ss)))))"

text \<open>The loop's count split in two: the members that have a slot of their own and pass the
  test, and the whole weight of the members without an entry in the slot table.\<close>

definition seenWeight :: "Strongly \<Rightarrow> Event \<Rightarrow> Event \<Rightarrow> nat" where
  "seenWeight ss event1 event2 =
     sum_list (map (weightOf (members ss))
                (filter (\<lambda>m. map_of (nodes ss) m \<noteq> None \<and> coherent ss event1 event2 m)
                   (map fst (weights (members ss)))))"

definition unseenWeight :: "Strongly \<Rightarrow> nat" where
  "unseenWeight ss =
     sum_list (map (weightOf (members ss))
                (filter (\<lambda>m. map_of (nodes ss) m = None) (map fst (weights (members ss)))))"


text \<open>The creators of the indexed events.\<close>

definition creators :: "Strongly \<Rightarrow> peer set" where
  "creators ss = {Creator r |r h. events ss h = Some r}"

section \<open>Concrete inputs\<close>

subsection \<open>Packing and pacing\<close>

definition tx300 :: "nat \<Rightarrow> Transaction" where
  "tx300 n = \<lparr>Nonce = n, Gas = 300\<rparr>"

text \<open>One sender with five pending transactions of 300 gas each.\<close>

definition exPool :: "Transaction list list" where
  "exPool = [[tx300 1, tx300 2, tx300 3, tx300 4, tx300 5]]"

definition exEmitter :: Emitter where
  "exEmitter =
     \<lparr>NoTxsThreshold = 10, GasPowerControlThreshold = 20, EmergencyThreshold = 5,
      MinEmitInterval = 1, MaxEmitInterval = 10, MaxGasPowerUsed = 1000, MaxEventSize = 100\<rparr>"

definition exEvent :: emitted_Event where
  "exEvent = \<lparr>GasPowerUsed = 0, GasPowerLeft = 1000, Transactions = []\<rparr>"

text \<open>A size function that counts one unit per transaction.\<close>

definition exSize :: "emitted_Event \<Rightarrow> u64" where
  "exSize e = of_nat (length (Transactions e))"

definition exPacked :: emitted_Event where
  "exPacked = \<lparr>GasPowerUsed = 900, GasPowerLeft = 100,
               Transactions = [tx300 1, tx300 2, tx300 3]\<rparr>"

definition exLowPower :: emitted_Event where
  "exLowPower = \<lparr>GasPowerUsed = 0, GasPowerLeft = 5, Transactions = []\<rparr>"

subsection \<open>Ancestry index\<close>

text \<open>One validator of weight 1, and its first two events: \<open>exE1\<close> has no parent, \<open>exE2\<close>
  has \<open>exE1\<close> as its self-parent. \<open>exS1\<close> and \<open>exS2\<close> are the engine after each \<open>Add\<close>.\<close>

definition exMembers1 :: Members where
  "exMembers1 = \<lparr>weights = [(10, 1)], quorum = 1\<rparr>"

definition exE1 :: inter_Event where
  "exE1 = \<lparr>Hash = 1, Creator = 10, Index = 1, Parents = []\<rparr>"

definition exE2 :: inter_Event where
  "exE2 = \<lparr>Hash = 2, Creator = 10, Index = 2, Parents = [1]\<rparr>"

definition exR1 :: Event where
  "exR1 = \<lparr>Hash = 1, Creator = 10, Index = 1, Parents = [],
           CreatorN = 0, LowestSees = [1], HighestSeen = [1]\<rparr>"

definition exR1' :: Event where
  "exR1' = \<lparr>Hash = 1, Creator = 10, Index = 1, Parents = [],
            CreatorN = 0, LowestSees = [2], HighestSeen = [1]\<rparr>"

definition exR2 :: Event where
  "exR2 = \<lparr>Hash = 2, Creator = 10, Index = 2, Parents = [1],
           CreatorN = 0, LowestSees = [2], HighestSeen = [2]\<rparr>"

definition exS1 :: Strongly where
  "exS1 = \<lparr>members = exMembers1, nodes = [(10, 0)], events = [1 \<mapsto> exR1]\<rparr>"

definition exS2 :: Strongly where
  "exS2 = \<lparr>members = exMembers1, nodes = [(10, 0)], events = [1 \<mapsto> exR1', 2 \<mapsto> exR2]\<rparr>"

text \<open>Three validators of weight 1 with threshold 3; only validator 10 has created an
  event.\<close>

definition exMembers3 :: Members where
  "exMembers3 = \<lparr>weights = [(10, 1), (20, 1), (30, 1)], quorum = 3\<rparr>"

definition exT1 :: Strongly where
  "exT1 = \<lparr>members = exMembers3, nodes = [(10, 0)],
           events = [1 \<mapsto> \<lparr>Hash = 1, Creator = 10, Index = 1, Parents = [],
                             CreatorN = 0, LowestSees = [1, 0, 0], HighestSeen = [1, 0, 0]\<rparr>]\<rparr>"

text \<open>The record of the one indexed event of \<open>exT1\<close>.\<close>

definition exQ1 :: Event where
  "exQ1 = \<lparr>Hash = 1, Creator = 10, Index = 1, Parents = [],
           CreatorN = 0, LowestSees = [1, 0, 0], HighestSeen = [1, 0, 0]\<rparr>"

text \<open>An event of a second creator.\<close>

definition exE3 :: inter_Event where
  "exE3 = \<lparr>Hash = 3, Creator = 20, Index = 1, Parents = []\<rparr>"

section \<open>Properties of the packing and pacing code\<close>

subsection \<open>Packing\<close>

text \<open>
  C6. Packing is meant to add a pending transaction when its gas fits the event's remaining
  gas power and the cap of \<open>maxGasPowerToUse\<close>. With \<open>GasPowerLeft = 1000\<close>, a cap of
  1000 and five pending transactions of 300 gas each from one sender, three transactions
  pass the test and \<open>GasPowerUsed\<close> grows by 900, but each of the three appends the
  sender's whole group: the event ends with 15 transactions, not 3.
\<close>

theorem addTxs_appends_whole_group:
  "addTxs exEmitter exSize 0 (Some exPool) exEvent =
     \<lparr>GasPowerUsed = 900, GasPowerLeft = 100,
      Transactions = concat exPool @ concat exPool @ concat exPool\<rparr>"
  by (simp add: addTxs_def exEmitter_def exEvent_def maxGasPowerToUse_def tx300_def
      exSize_def exPool_def spillTxs.simps)

subsection \<open>Spilling\<close>

lemma refundTail_all: "length (Transactions e) \<le> k \<Longrightarrow> refundTail e k = e"
  by (simp add: refundTail_def)

lemma refundTail_step:
  assumes "Transactions e \<noteq> []" and "k < length (Transactions e)"
  shows "refundTail (e\<lparr>GasPowerUsed := GasPowerUsed e - Gas (last (Transactions e)),
                       GasPowerLeft := GasPowerLeft e + Gas (last (Transactions e)),
                       Transactions := butlast (Transactions e)\<rparr>) k = refundTail e k"
proof -
  obtain ys y where ys: "Transactions e = ys @ [y]"
    using assms(1) by (meson rev_exhaust)
  with assms(2) have "k \<le> length ys" by simp
  then show ?thesis
    by (simp add: refundTail_def ys)
qed

text \<open>
  C7. The spill loop pops transactions from the tail one at a time, and each pop takes the
  popped transaction's gas off \<open>GasPowerUsed\<close> and adds it to \<open>GasPowerLeft\<close> (in
  \<open>uint64\<close> arithmetic): the result is the event with some \<open>k\<close> leading transactions
  kept and the gas of the others refunded. It stops as soon as the size bound holds or
  the list is empty: the bound holds at \<open>k\<close> or \<open>k = 0\<close>, and it failed at every longer
  prefix the loop went through.
\<close>

theorem spillTxs_refunds_tail:
  "\<exists>k\<le>length (Transactions e).
      spillTxs calcSize maxSize e = refundTail e k \<and>
      (calcSize (refundTail e k) \<le> maxSize \<or> k = 0) \<and>
      (\<forall>j. k < j \<and> j \<le> length (Transactions e) \<longrightarrow> maxSize < calcSize (refundTail e j))"
proof (induction calcSize maxSize e rule: spillTxs.induct)
  case (1 calcSize maxSize e)
  let ?n = "length (Transactions e)"
  show ?case
  proof (cases "calcSize e > maxSize \<and> ?n > 0")
    case False
    have "spillTxs calcSize maxSize e = e"
      using False by (subst spillTxs.simps) auto
    with False show ?thesis
      by (intro exI[of _ ?n]) (auto simp: refundTail_all)
  next
    case True
    let ?e' = "e\<lparr>GasPowerUsed := GasPowerUsed e - Gas (last (Transactions e)),
                  GasPowerLeft := GasPowerLeft e + Gas (last (Transactions e)),
                  Transactions := butlast (Transactions e)\<rparr>"
    from True have ne: "Transactions e \<noteq> []" by auto
    from "1.IH"[OF True] obtain k where k: "k \<le> length (Transactions ?e')"
      "spillTxs calcSize maxSize ?e' = refundTail ?e' k"
      "calcSize (refundTail ?e' k) \<le> maxSize \<or> k = 0"
      "\<forall>j. k < j \<and> j \<le> length (Transactions ?e') \<longrightarrow> maxSize < calcSize (refundTail ?e' j)"
      by blast
    have "length (Transactions ?e') = ?n - 1" by simp
    moreover have "?n \<noteq> 0" using ne by simp
    ultimately have klt: "k < ?n" using k(1) by linarith
    have eq: "\<And>j. j < ?n \<Longrightarrow> refundTail ?e' j = refundTail e j"
      using refundTail_step[OF ne] by simp
    have sp: "spillTxs calcSize maxSize e = refundTail e k"
      using True k(2) eq[OF klt] by (subst spillTxs.simps) simp
    have stop: "calcSize (refundTail e k) \<le> maxSize \<or> k = 0"
      using k(3) eq[OF klt] by simp
    have above: "maxSize < calcSize (refundTail e j)" if "k < j" "j \<le> ?n" for j
    proof (cases "j = ?n")
      case True
      then show ?thesis
        using \<open>calcSize e > maxSize \<and> ?n > 0\<close> by (simp add: refundTail_all)
    next
      case False
      with that have "j < ?n" by simp
      moreover have "j \<le> length (Transactions ?e')" using \<open>j < ?n\<close> by simp
      ultimately show ?thesis using k(4) that(1) eq by metis
    qed
    show ?thesis using klt sp stop above by (intro exI[of _ k]) auto
  qed
qed

text \<open>With three packed transactions of 300 gas and room for two, one is popped and 300
  gas is refunded.\<close>

theorem spillTxs_refunds_tail_witness:
  "spillTxs exSize 2 exPacked =
     \<lparr>GasPowerUsed = 600, GasPowerLeft = 400, Transactions = [tx300 1, tx300 2]\<rparr>"
proof -
  have sz: "exSize (refundTail exPacked 1) = 1" "exSize (refundTail exPacked 2) = 2"
    "exSize (refundTail exPacked 3) = 3"
    by (simp_all add: exSize_def refundTail_def exPacked_def)
  have len: "length (Transactions exPacked) = 3"
    by (simp add: exPacked_def)
  obtain k where k: "k \<le> 3" "spillTxs exSize 2 exPacked = refundTail exPacked k"
    "exSize (refundTail exPacked k) \<le> 2 \<or> k = 0"
    "\<forall>j. k < j \<and> j \<le> 3 \<longrightarrow> 2 < exSize (refundTail exPacked j)"
    using spillTxs_refunds_tail[of exPacked exSize 2] unfolding len by blast
  from k(1) consider "k = 0" | "k = 1" | "k = 2" | "k = 3" by linarith
  then have "k = 2"
  proof cases
    case 1
    with k(4) have "2 < exSize (refundTail exPacked 1)" by simp
    then show ?thesis unfolding sz by simp
  next
    case 2
    with k(4) have "2 < exSize (refundTail exPacked 2)" by simp
    then show ?thesis unfolding sz by simp
  next
    case 3
    then show ?thesis .
  next
    case 4
    with k(3) have "exSize (refundTail exPacked 3) \<le> 2" by simp
    then show ?thesis unfolding sz by simp
  qed
  with k(2) show ?thesis
    by (simp add: refundTail_def exPacked_def tx300_def)
qed

subsection \<open>Pacing\<close>

text \<open>
  C8, as the claim states it, fails: with \<open>GasPowerLeft\<close> at \<open>EmergencyThreshold\<close>, equal
  to the self-parent's, the first block of \<open>isAllowedToEmit\<close> still denies the event when
  \<open>GasPowerLeft \<le> NoTxsThreshold\<close> and too little time has passed (here 3 units, with an
  adjusted interval of 6).
\<close>

theorem isAllowedToEmit_equal_power_denied:
  "GasPowerLeft exLowPower = EmergencyThreshold exEmitter \<and>
   isAllowedToEmit exEmitter 3 exLowPower (Some \<lparr>parentGasPowerLeft = 5\<rparr>) = Inr False"
  by (simp add: isAllowedToEmit_def exEmitter_def exLowPower_def powerGate_def div_int64_def
      signed_divide_int_def word_sless_alt adjustedEmitInterval_def)

text \<open>
  C8, amended. With a self-parent present and \<open>GasPowerLeft\<close> exactly at
  \<open>EmergencyThreshold\<close>: when the self-parent's \<open>GasPowerLeft\<close> is one unit higher,
  \<open>isAllowedToEmit\<close> returns false (or fails on the division when \<open>NoTxsThreshold\<close> is
  zero and applies); when the two are equal, it returns true if \<open>GasPowerLeft\<close> is above
  \<open>NoTxsThreshold\<close>, and otherwise true exactly when the elapsed time is not below the
  adjusted emit interval.
\<close>

theorem isAllowedToEmit_at_EmergencyThreshold:
  assumes "selfParent = Some sp" and "GasPowerLeft e = EmergencyThreshold em"
  shows "(unat (parentGasPowerLeft sp) = unat (GasPowerLeft e) + 1 \<longrightarrow>
            isAllowedToEmit em elapsed e selfParent =
              (if GasPowerLeft e \<le> NoTxsThreshold em \<and> NoTxsThreshold em = 0
               then Inl Division_by_zero else Inr False)) \<and>
         (parentGasPowerLeft sp = GasPowerLeft e \<longrightarrow>
            isAllowedToEmit em elapsed e selfParent =
              (if GasPowerLeft e \<le> NoTxsThreshold em
               then if NoTxsThreshold em = 0 then Inl Division_by_zero
                    else Inr (\<not> elapsed <s adjustedEmitInterval em e)
               else Inr True))"
proof -
  have "\<not> parentGasPowerLeft sp \<le> GasPowerLeft e"
    if "unat (parentGasPowerLeft sp) = unat (GasPowerLeft e) + 1"
    using that by (simp add: word_le_nat_alt)
  then show ?thesis
    using assms by (auto simp: isAllowedToEmit_def powerGate_def)
qed

theorem isAllowedToEmit_at_EmergencyThreshold_witness:
  "isAllowedToEmit exEmitter 7 exLowPower (Some \<lparr>parentGasPowerLeft = 6\<rparr>) = Inr False \<and>
   isAllowedToEmit exEmitter 7 exLowPower (Some \<lparr>parentGasPowerLeft = 5\<rparr>) = Inr True"
proof -
  have thr: "GasPowerLeft exLowPower = EmergencyThreshold exEmitter"
    by (simp add: exLowPower_def exEmitter_def)
  have adj: "\<not> 7 <s adjustedEmitInterval exEmitter exLowPower"
    by (simp add: adjustedEmitInterval_def exEmitter_def exLowPower_def div_int64_def
        signed_divide_int_def word_sless_alt)
  have "isAllowedToEmit exEmitter 7 exLowPower (Some \<lparr>parentGasPowerLeft = 6\<rparr>) = Inr False"
    using isAllowedToEmit_at_EmergencyThreshold[OF refl thr, of "\<lparr>parentGasPowerLeft = 6\<rparr>" 7]
    by (simp add: exLowPower_def exEmitter_def)
  moreover
  have "isAllowedToEmit exEmitter 7 exLowPower (Some \<lparr>parentGasPowerLeft = 5\<rparr>) = Inr True"
    using isAllowedToEmit_at_EmergencyThreshold[OF refl thr, of "\<lparr>parentGasPowerLeft = 5\<rparr>" 7] adj
    by (simp add: exLowPower_def exEmitter_def)
  ultimately show ?thesis by simp
qed

section \<open>Properties of the ancestry index\<close>

subsection \<open>What a walk changes\<close>

lemma lowered_refl: "lowered node ref r r"
  by (simp add: lowered_def)

lemma lowered_trans:
  assumes "lowered node ref r r'" and "lowered node ref r' r''"
  shows "lowered node ref r r''"
proof (cases "r' = r")
  case True
  with assms(2) show ?thesis by simp
next
  case False
  with assms(1) have r': "node < length (LowestSees r)" "accepted node ref r"
    "r' = r\<lparr>LowestSees := (LowestSees r)[node := ref]\<rparr>"
    by (auto simp: lowered_def)
  show ?thesis
  proof (cases "r'' = r'")
    case True
    with assms(1) show ?thesis by simp
  next
    case False
    with assms(2) have "r'' = r'\<lparr>LowestSees := (LowestSees r')[node := ref]\<rparr>"
      by (auto simp: lowered_def)
    with r'(3) have "r'' = r'" by simp
    with assms(1) show ?thesis by simp
  qed
qed

lemma walked_refl: "walked node ref es es"
  by (simp add: walked_def lowered_refl)

lemma walked_trans:
  assumes "walked node ref es es'" and "walked node ref es' es''"
  shows "walked node ref es es''"
  unfolding walked_def
proof (intro conjI allI impI)
  fix h assume "es h = None"
  with assms show "es'' h = None" by (simp add: walked_def)
next
  fix h r assume "es h = Some r"
  with assms(1) obtain r' where r': "es' h = Some r'" "lowered node ref r r'"
    unfolding walked_def by blast
  with assms(2) obtain r'' where "es'' h = Some r''" "lowered node ref r' r''"
    unfolding walked_def by blast
  with r'(2) show "\<exists>r''. es'' h = Some r'' \<and> lowered node ref r r''"
    using lowered_trans by blast
qed

lemma walked_update:
  assumes "es a = Some r" and "lowered node ref r r'"
  shows "walked node ref es (es(a \<mapsto> r'))"
  using assms by (auto simp: walked_def lowered_refl)

lemma setLowestSeesIfMin_lowered:
  "setLowestSeesIfMin r node ref = Inr (r', ok) \<Longrightarrow> lowered node ref r r'"
  by (auto simp: setLowestSeesIfMin_def lowered_def accepted_def split: if_splits)

lemma lowestSeesPass_walked:
  "lowestSeesPass es node ref ps next = Inr (es', next') \<Longrightarrow> walked node ref es es'"
proof (induction es node ref ps "next" rule: lowestSeesPass.induct)
  case (1 es node ref "next")
  then show ?case by (simp add: walked_refl)
next
  case (2 es node ref p ps "next")
  from "2.prems" obtain a r r' ok where a: "p = Some a" "es a = Some r"
    "setLowestSeesIfMin r node ref = Inr (r', ok)"
    by (auto split: option.splits sum.splits)
  show ?case
  proof (cases ok)
    case False
    with a "2.prems" have "lowestSeesPass es node ref ps next = Inr (es', next')" by simp
    with "2.IH"(1)[OF a(1,2) a(3) refl] False show ?thesis by blast
  next
    case True
    let ?es1 = "es(a \<mapsto> r')"
    from True a "2.prems" have
      "lowestSeesPass ?es1 node ref ps
         (next @ map (lookup ?es1) (filter (\<lambda>p. p \<noteq> 0) (Parents r'))) = Inr (es', next')"
      by simp
    with "2.IH"(2)[OF a(1,2) a(3) refl] True have "walked node ref ?es1 es'" by blast
    moreover have "walked node ref es ?es1"
      using a(2) setLowestSeesIfMin_lowered[OF a(3)] by (rule walked_update)
    ultimately show ?thesis using walked_trans by blast
  qed
qed

lemma lowestSeesLoop_walked:
  assumes "lowestSeesLoop es node ref toUpdate = Some res"
  shows "\<forall>es'. res = Inr es' \<longrightarrow> walked node ref es es'"
proof (rule lowestSeesLoop.raw_induct
    [where P = "\<lambda>es node ref toUpdate res. \<forall>es'. res = Inr es' \<longrightarrow> walked node ref es es'",
      OF _ assms])
  fix loop es node ref toUpdate res
  assume IH: "\<And>es node ref toUpdate res. loop es node ref toUpdate = Some res \<Longrightarrow>
                \<forall>es'. res = Inr es' \<longrightarrow> walked node ref es es'"
    and body: "(case lowestSeesPass es node ref toUpdate [] of
                  Inl err \<Rightarrow> Some (Inl err)
                | Inr (es', next) \<Rightarrow>
                    if next = [] then Some (Inr es') else loop es' node ref next) = Some res"
  show "\<forall>es'. res = Inr es' \<longrightarrow> walked node ref es es'"
  proof (cases "lowestSeesPass es node ref toUpdate []")
    case (Inl err)
    with body show ?thesis by auto
  next
    case (Inr pr)
    obtain es1 nxt where pr: "pr = (es1, nxt)" by (cases pr)
    have w1: "walked node ref es es1"
      using Inr pr lowestSeesPass_walked by blast
    show ?thesis
    proof (cases "nxt = []")
      case True
      with Inr pr body w1 show ?thesis by auto
    next
      case False
      with Inr pr body have "loop es1 node ref nxt = Some res" by simp
      from IH[OF this] w1 show ?thesis
        using walked_trans by blast
    qed
  qed
qed


lemma lowered_fields:
  assumes "lowered node ref r r'"
  shows "Parents r' = Parents r" "Creator r' = Creator r" "HighestSeen r' = HighestSeen r"
    "length (LowestSees r') = length (LowestSees r)" "CreatorN r' = CreatorN r"
    "Index r' = Index r" "Hash r' = Hash r"
  using assms by (auto simp: lowered_def)

lemma walked_None: "walked node ref es es' \<Longrightarrow> (es' h = None) = (es h = None)"
  unfolding walked_def by (metis option.distinct(1) not_Some_eq)

lemma walked_Some:
  "walked node ref es es' \<Longrightarrow> es h = Some r \<Longrightarrow> \<exists>r'. es' h = Some r' \<and> lowered node ref r r'"
  unfolding walked_def by blast

lemma walked_Some_rev:
  assumes "walked node ref es es'" and "es' h = Some r'"
  shows "\<exists>r. es h = Some r \<and> lowered node ref r r'"
proof -
  have "es h \<noteq> None" using walked_None[OF assms(1), of h] assms(2) by simp
  then obtain r where r: "es h = Some r" by blast
  with assms(1) obtain r'' where "es' h = Some r''" "lowered node ref r r''"
    using walked_Some by blast
  with assms(2) r show ?thesis by simp
qed

lemma walked_storeOK:
  assumes "walked node ref es es'" and "storeOK L es"
  shows "storeOK L es'"
  unfolding storeOK_def
proof (intro allI impI)
  fix h r' assume "es' h = Some r'"
  with assms(1) obtain r where r: "es h = Some r" "lowered node ref r r'"
    using walked_Some_rev by blast
  from assms(2) r(1) have ok: "length (LowestSees r) = L" "length (HighestSeen r) = L"
    "\<forall>p\<in>set (Parents r). p \<noteq> 0 \<longrightarrow> es p \<noteq> None"
    unfolding storeOK_def by blast+
  have "\<forall>p\<in>set (Parents r'). p \<noteq> 0 \<longrightarrow> es' p \<noteq> None"
    using ok(3) lowered_fields(1)[OF r(2)] walked_None[OF assms(1)] by simp
  with ok lowered_fields[OF r(2)]
  show "length (LowestSees r') = L \<and> length (HighestSeen r') = L \<and>
        (\<forall>p\<in>set (Parents r'). p \<noteq> 0 \<longrightarrow> es' p \<noteq> None)"
    by simp
qed

lemma walked_ranked:
  assumes "walked node ref es es'" and "ranked rank es"
  shows "ranked rank es'"
  unfolding ranked_def
proof (intro allI impI)
  fix h r' assume "es' h = Some r'"
  with assms(1) obtain r where r: "es h = Some r" "lowered node ref r r'"
    using walked_Some_rev by blast
  with assms(2) lowered_fields(1)[OF r(2)]
  show "\<forall>p\<in>set (Parents r'). p \<noteq> 0 \<longrightarrow> rank p < rank h"
    unfolding ranked_def by simp
qed

lemma walked_creators:
  assumes "walked node ref es es'"
  shows "{Creator r |r h. es' h = Some r} = {Creator r |r h. es h = Some r}"
proof (intro set_eqI iffI)
  fix c assume "c \<in> {Creator r |r h. es' h = Some r}"
  then obtain r' h where r': "es' h = Some r'" "c = Creator r'" by blast
  from walked_Some_rev[OF assms r'(1)] obtain r where "es h = Some r" "lowered node ref r r'"
    by blast
  with r'(2) lowered_fields(2) have "es h = Some r \<and> c = Creator r" by simp
  then show "c \<in> {Creator r |r h. es h = Some r}" by blast
next
  fix c assume "c \<in> {Creator r |r h. es h = Some r}"
  then obtain r h where r: "es h = Some r" "c = Creator r" by blast
  from walked_Some[OF assms r(1)] obtain r' where "es' h = Some r'" "lowered node ref r r'"
    by blast
  with r(2) lowered_fields(2) have "es' h = Some r' \<and> c = Creator r'" by simp
  then show "c \<in> {Creator r |r h. es' h = Some r}" by blast
qed

lemma highestSeenLoop_mono:
  "highestSeenLoop hs i ns = Inr hs' \<Longrightarrow>
     length hs' = length hs \<and> (\<forall>j<length hs. hs ! j \<le> hs' ! j)"
proof (induction ns arbitrary: hs i)
  case Nil
  then show ?case by simp
next
  case (Cons n ns)
  let ?hs1 = "if hs ! i < n then hs[i := n] else hs"
  from Cons.prems have i: "i < length hs" and
    rec: "highestSeenLoop ?hs1 (Suc i) ns = Inr hs'"
    by (auto split: if_splits)
  from Cons.IH[OF rec] have len: "length hs' = length hs"
    and ge: "\<forall>j<length hs. ?hs1 ! j \<le> hs' ! j" by auto
  have "hs ! j \<le> ?hs1 ! j" if "j < length hs" for j
    using that by (cases "j = i") auto
  with ge len show ?case using order_trans by blast
qed

lemma highestSeenLoop_total:
  "i + length ns \<le> length hs \<Longrightarrow> \<exists>hs'. highestSeenLoop hs i ns = Inr hs'"
  by (induction ns arbitrary: hs i) auto


lemma raised_refl: "raised e e"
  unfolding raised_def by (intro exI[of _ "HighestSeen e"]) simp

lemma raised_trans:
  assumes "raised e e1" and "raised e1 e2"
  shows "raised e e2"
proof -
  from assms(1) obtain hs1 where 1: "e1 = e\<lparr>HighestSeen := hs1\<rparr>"
    "length hs1 = length (HighestSeen e)" "\<forall>j<length hs1. HighestSeen e ! j \<le> hs1 ! j"
    unfolding raised_def by blast
  from assms(2) obtain hs2 where 2: "e2 = e1\<lparr>HighestSeen := hs2\<rparr>"
    "length hs2 = length (HighestSeen e1)" "\<forall>j<length hs2. HighestSeen e1 ! j \<le> hs2 ! j"
    unfolding raised_def by blast
  have "e2 = e\<lparr>HighestSeen := hs2\<rparr>" using 1(1) 2(1) by simp
  moreover have "length hs2 = length (HighestSeen e)" using 1 2 by simp
  moreover have "\<forall>j<length hs2. HighestSeen e ! j \<le> hs2 ! j"
    using 1 2 by (auto intro: order_trans)
  ultimately show ?thesis unfolding raised_def by blast
qed

lemma raised_fields:
  assumes "raised e e'"
  shows "CreatorN e' = CreatorN e" "Index e' = Index e" "LowestSees e' = LowestSees e"
    "length (HighestSeen e') = length (HighestSeen e)" "Parents e' = Parents e"
    "Creator e' = Creator e" "Hash e' = Hash e"
  using assms by (auto simp: raised_def)

lemma lowestSeesLoop_nil: "lowestSeesLoop es node ref [None] = Some (Inl Nil_dereference)"
  by (subst lowestSeesLoop.simps) simp

lemma updateAllLowestSees_Inr:
  assumes "updateAllLowestSees es (lookup es p) node ref = Some (Inr es1)"
  shows "es p \<noteq> None" and "walked node ref es es1"
proof -
  show "es p \<noteq> None"
  proof
    assume "es p = None"
    then have "lookup es p = None" by (simp add: lookup_def)
    with assms show False by (simp add: updateAllLowestSees_def lowestSeesLoop_nil)
  qed
  show "walked node ref es es1"
    using assms lowestSeesLoop_walked unfolding updateAllLowestSees_def by blast
qed

lemma updateAllHighestSeen_Inr:
  assumes "updateAllHighestSeen es e parent = Inr e'"
  shows "raised e e'"
proof -
  from assms obtain a r hs where "parent = Some a" "es a = Some r"
    and hs: "highestSeenLoop (HighestSeen e) 0 (HighestSeen r) = Inr hs"
    and e': "e' = e\<lparr>HighestSeen := hs\<rparr>"
    by (auto simp: updateAllHighestSeen_def split: option.splits sum.splits)
  from highestSeenLoop_mono[OF hs] e' show ?thesis
    unfolding raised_def by auto
qed

lemma fillParents_Inr:
  "fillParents es e ps = Some (Inr (es', e')) \<Longrightarrow>
     walked (CreatorN e) (Index e) es es' \<and> raised e e' \<and>
     (\<forall>p\<in>set ps. p \<noteq> 0 \<longrightarrow> es p \<noteq> None)"
proof (induction ps arbitrary: es e)
  case Nil
  then show ?case by (simp add: walked_refl raised_refl)
next
  case (Cons p ps)
  show ?case
  proof (cases "p = 0")
    case True
    with Cons.prems have "fillParents es e ps = Some (Inr (es', e'))" by simp
    from Cons.IH[OF this] True show ?thesis by simp
  next
    case False
    with Cons.prems obtain es1 e1 where
      low: "updateAllLowestSees es (lookup es p) (CreatorN e) (Index e) = Some (Inr es1)"
      and high: "updateAllHighestSeen es1 e (lookup es p) = Inr e1"
      and rest: "fillParents es1 e1 ps = Some (Inr (es', e'))"
      by (auto split: option.splits sum.splits)
    note w1 = updateAllLowestSees_Inr[OF low]
    note r1 = updateAllHighestSeen_Inr[OF high]
    from Cons.IH[OF rest] raised_fields(1,2)[OF r1]
    have w2: "walked (CreatorN e) (Index e) es1 es'" and r2: "raised e1 e'"
      and ps: "\<forall>p\<in>set ps. p \<noteq> 0 \<longrightarrow> es1 p \<noteq> None"
      by simp_all
    have "\<forall>p\<in>set ps. p \<noteq> 0 \<longrightarrow> es p \<noteq> None"
      using ps walked_None[OF w1(2)] by simp
    with w1 w2 r1 r2 show ?thesis
      using walked_trans raised_trans by auto
  qed
qed


lemma setNodes_eq:
  "setNodes ss (newEvent ss e) =
     (ss\<lparr>nodes := nodesAfter ss e\<rparr>, (newEvent ss e)\<lparr>CreatorN := creatorSlot ss e\<rparr>)"
  by (simp add: setNodes_def nodesAfter_def creatorSlot_def newEvent_def split: option.splits)

lemma fillEventRefs_newEvent:
  "fillEventRefs es ((newEvent ss e)\<lparr>CreatorN := creatorSlot ss e\<rparr>) =
     (if length (weights (members ss)) \<le> creatorSlot ss e then Some (Inl Index_out_of_range)
      else fillParents es (seeded ss e) (Parents e))"
  by (simp add: fillEventRefs_def newEvent_def seeded_def)

lemma Add_eq:
  "Add ss e =
     (if events ss (Hash e) \<noteq> None then Some (Inl Fatal_already_exists)
      else if length (weights (members ss)) \<le> creatorSlot ss e then Some (Inl Index_out_of_range)
      else (case fillParents (events ss) (seeded ss e) (Parents e) of
              None \<Rightarrow> None
            | Some (Inl err) \<Rightarrow> Some (Inl err)
            | Some (Inr (es, event')) \<Rightarrow>
                Some (Inr \<lparr>members = members ss, nodes = nodesAfter ss e,
                           events = es(Hash e \<mapsto> event')\<rparr>)))"
  by (simp add: Add_def setNodes_eq fillEventRefs_newEvent split: option.splits sum.splits)

lemma Add_Inr:
  assumes "Add ss e = Some (Inr ss')"
  obtains es' ev where
    "events ss (Hash e) = None"
    "creatorSlot ss e < length (weights (members ss))"
    "\<forall>p\<in>set (Parents e). p \<noteq> 0 \<longrightarrow> events ss p \<noteq> None"
    "walked (creatorSlot ss e) (Index e) (events ss) es'"
    "raised (seeded ss e) ev"
    "ss' = \<lparr>members = members ss, nodes = nodesAfter ss e, events = es'(Hash e \<mapsto> ev)\<rparr>"
proof -
  from assms have new: "events ss (Hash e) = None"
    and slot: "creatorSlot ss e < length (weights (members ss))"
    by (auto simp: Add_eq split: if_splits)
  with assms obtain es' ev where
    fp: "fillParents (events ss) (seeded ss e) (Parents e) = Some (Inr (es', ev))"
    and ss': "ss' = \<lparr>members = members ss, nodes = nodesAfter ss e, events = es'(Hash e \<mapsto> ev)\<rparr>"
    by (auto simp: Add_eq split: option.splits sum.splits)
  from fillParents_Inr[OF fp] have "walked (creatorSlot ss e) (Index e) (events ss) es'"
    "raised (seeded ss e) ev" "\<forall>p\<in>set (Parents e). p \<noteq> 0 \<longrightarrow> events ss p \<noteq> None"
    by (simp_all add: seeded_def)
  with new slot ss' show thesis using that by blast
qed


lemma seeded_fields:
  "Hash (seeded ss e) = Hash e" "Creator (seeded ss e) = Creator e"
  "Index (seeded ss e) = Index e" "Parents (seeded ss e) = Parents e"
  "CreatorN (seeded ss e) = creatorSlot ss e"
  "length (LowestSees (seeded ss e)) = length (weights (members ss))"
  "length (HighestSeen (seeded ss e)) = length (weights (members ss))"
  by (simp_all add: seeded_def)

lemma storeOK_insert:
  assumes "storeOK L es" and "es h = None"
    and "length (LowestSees ev) = L" and "length (HighestSeen ev) = L"
    and "\<forall>p\<in>set (Parents ev). p \<noteq> 0 \<longrightarrow> es p \<noteq> None"
  shows "storeOK L (es(h \<mapsto> ev))"
  using assms unfolding storeOK_def by auto

lemma ranked_insert:
  assumes "ranked rank es" and "storeOK L es" and "es h = None"
    and "\<forall>p\<in>set (Parents ev). p \<noteq> 0 \<longrightarrow> es p \<noteq> None"
  shows "ranked (rank(h := Suc (sum_list (map rank (Parents ev))))) (es(h \<mapsto> ev))"
  unfolding ranked_def
proof (intro allI impI ballI)
  fix k r p
  assume kr: "(es(h \<mapsto> ev)) k = Some r" and p: "p \<in> set (Parents r)" "p \<noteq> 0"
  let ?rank = "rank(h := Suc (sum_list (map rank (Parents ev))))"
  show "?rank p < ?rank k"
  proof (cases "k = h")
    case True
    with kr have "r = ev" by simp
    with p assms(4) have "es p \<noteq> None" by simp
    with assms(3) have "p \<noteq> h" by auto
    moreover have "rank p \<le> sum_list (map rank (Parents ev))"
      using p(1) \<open>r = ev\<close> by (simp add: member_le_sum_list)
    ultimately show ?thesis using True by simp
  next
    case False
    with kr have es: "es k = Some r" by simp
    with assms(2) p have "es p \<noteq> None" unfolding storeOK_def by blast
    with assms(3) have "p \<noteq> h" by auto
    moreover from assms(1) es p have "rank p < rank k" unfolding ranked_def by blast
    ultimately show ?thesis using False by simp
  qed
qed

lemma creators_insert:
  assumes "es h = None"
  shows "{Creator r |r k. (es(h \<mapsto> ev)) k = Some r} =
         insert (Creator ev) {Creator r |r k. es k = Some r}"
proof (intro set_eqI iffI)
  fix c assume "c \<in> {Creator r |r k. (es(h \<mapsto> ev)) k = Some r}"
  then obtain r k where rk: "(es(h \<mapsto> ev)) k = Some r" "c = Creator r" by blast
  show "c \<in> insert (Creator ev) {Creator r |r k. es k = Some r}"
  proof (cases "k = h")
    case True
    with rk show ?thesis by simp
  next
    case False
    with rk have "es k = Some r \<and> c = Creator r" by simp
    then show ?thesis by blast
  qed
next
  fix c assume "c \<in> insert (Creator ev) {Creator r |r k. es k = Some r}"
  then consider "c = Creator ev" | r k where "es k = Some r" "c = Creator r" by blast
  then show "c \<in> {Creator r |r k. (es(h \<mapsto> ev)) k = Some r}"
  proof cases
    case 1
    then have "(es(h \<mapsto> ev)) h = Some ev \<and> c = Creator ev" by simp
    then show ?thesis by blast
  next
    case 2
    with assms have "k \<noteq> h" by auto
    with 2 have "(es(h \<mapsto> ev)) k = Some r \<and> c = Creator r" by simp
    then show ?thesis by blast
  qed
qed

lemma nodesAfter_props:
  assumes "map snd nd = [0..<length nd]" and "distinct (map fst nd)"
    and "nodes ss = nd"
  shows "map snd (nodesAfter ss e) = [0..<length (nodesAfter ss e)]"
    and "distinct (map fst (nodesAfter ss e))"
    and "fst ` set (nodesAfter ss e) = insert (Creator e) (fst ` set nd)"
    and "length (nodesAfter ss e) = (if creatorSlot ss e < length nd then length nd else Suc (length nd))"
    and "map_of (nodesAfter ss e) (Creator e) = Some (creatorSlot ss e)"
proof -
  show "map snd (nodesAfter ss e) = [0..<length (nodesAfter ss e)]"
    using assms by (simp add: nodesAfter_def split: option.splits)
  show "distinct (map fst (nodesAfter ss e))"
    using assms by (auto simp: nodesAfter_def map_of_eq_None_iff split: option.splits)
  show "fst ` set (nodesAfter ss e) = insert (Creator e) (fst ` set nd)"
  proof (cases "map_of nd (Creator e)")
    case None
    with assms(3) show ?thesis by (simp add: nodesAfter_def)
  next
    case (Some n)
    then have "Creator e \<in> fst ` set nd"
      by (metis map_of_eq_None_iff option.distinct(1))
    with Some assms(3) show ?thesis by (auto simp: nodesAfter_def)
  qed
  show "length (nodesAfter ss e) = (if creatorSlot ss e < length nd then length nd else Suc (length nd))"
  proof (cases "map_of nd (Creator e)")
    case None
    with assms(3) show ?thesis by (simp add: nodesAfter_def creatorSlot_def)
  next
    case (Some n)
    then have "(Creator e, n) \<in> set nd" by (rule map_of_SomeD)
    then have "n \<in> set (map snd nd)" by force
    with assms(1) have "n < length nd" by simp
    with Some assms(3) show ?thesis by (simp add: nodesAfter_def creatorSlot_def)
  qed
  show "map_of (nodesAfter ss e) (Creator e) = Some (creatorSlot ss e)"
    using assms(3) by (simp add: nodesAfter_def creatorSlot_def map_add_Some_iff split: option.splits)
qed

lemma wellFormed_Reset: "wellFormed (Reset mm)"
  by (simp add: wellFormed_def Reset_def storeOK_def ranked_def)

lemma wellFormed_Add:
  assumes "wellFormed ss" and "Add ss e = Some (Inr ss')"
  shows "wellFormed ss'"
proof -
  let ?L = "length (weights (members ss))"
  from assms(2) obtain es' ev where
    new: "events ss (Hash e) = None"
    and slot: "creatorSlot ss e < ?L"
    and par: "\<forall>p\<in>set (Parents e). p \<noteq> 0 \<longrightarrow> events ss p \<noteq> None"
    and w: "walked (creatorSlot ss e) (Index e) (events ss) es'"
    and r: "raised (seeded ss e) ev"
    and ss': "ss' = \<lparr>members = members ss, nodes = nodesAfter ss e, events = es'(Hash e \<mapsto> ev)\<rparr>"
    by (rule Add_Inr)
  from assms(1) obtain rank where ok: "storeOK ?L (events ss)" and rk: "ranked rank (events ss)"
    and nd: "map snd (nodes ss) = [0..<length (nodes ss)]" "distinct (map fst (nodes ss))"
      "length (nodes ss) \<le> ?L"
      "fst ` set (nodes ss) = {Creator r |r h. events ss h = Some r}"
    unfolding wellFormed_def by blast
  have new': "es' (Hash e) = None" using walked_None[OF w] new by simp
  have par': "\<forall>p\<in>set (Parents ev). p \<noteq> 0 \<longrightarrow> es' p \<noteq> None"
    using par walked_None[OF w] raised_fields(5)[OF r] by (simp add: seeded_fields)
  have ok': "storeOK ?L es'" using w ok by (rule walked_storeOK)
  have len: "length (LowestSees ev) = ?L" "length (HighestSeen ev) = ?L"
    using raised_fields(3,4)[OF r] by (simp_all add: seeded_fields)
  have 1: "storeOK ?L (es'(Hash e \<mapsto> ev))"
    using ok' new' len par' by (rule storeOK_insert)
  have 2: "\<exists>rank. ranked rank (es'(Hash e \<mapsto> ev))"
    using ranked_insert[OF walked_ranked[OF w rk] ok' new' par'] by blast
  note na = nodesAfter_props[OF nd(1,2) refl, of e]
  have 3: "length (nodesAfter ss e) \<le> ?L"
    using na(4) nd(3) slot by (simp split: if_splits)
  have 4: "fst ` set (nodesAfter ss e) = {Creator r |r h. (es'(Hash e \<mapsto> ev)) h = Some r}"
    using na(3) nd(4) walked_creators[OF w] creators_insert[of es' "Hash e" ev, OF new']
      raised_fields(6)[OF r] by (simp add: seeded_fields)
  show ?thesis
    unfolding wellFormed_def ss' using 1 2 3 4 na(1,2) by simp
qed

lemma reachable_wellFormed: "reachable ss \<Longrightarrow> wellFormed ss"
  by (induction rule: reachable.induct) (auto intro: wellFormed_Reset wellFormed_Add)


lemma inWork_walked:
  "walked node ref es es' \<Longrightarrow> inWork es rank k ps \<Longrightarrow> inWork es' rank k ps"
  unfolding inWork_def using walked_None by fastforce

lemma inWork_append:
  "inWork es rank k (ps @ qs) \<longleftrightarrow> inWork es rank k ps \<and> inWork es rank k qs"
  unfolding inWork_def by auto

lemma inWork_parents:
  assumes "storeOK L es" and "ranked rank es" and "es a = Some r" and "rank a < Suc k"
  shows "inWork es rank k (map (lookup es) (filter (\<lambda>p. p \<noteq> 0) (Parents r)))"
  unfolding inWork_def
proof
  fix q assume "q \<in> set (map (lookup es) (filter (\<lambda>p. p \<noteq> 0) (Parents r)))"
  then obtain p where p: "p \<in> set (Parents r)" "p \<noteq> 0" "q = lookup es p" by auto
  with assms(1,3) have "es p \<noteq> None" unfolding storeOK_def by blast
  moreover from assms(2,3) p have "rank p < rank a" unfolding ranked_def by blast
  ultimately show "\<exists>a. q = Some a \<and> es a \<noteq> None \<and> rank a < k"
    using p(3) assms(4) by (auto simp: lookup_def)
qed

lemma setLowestSeesIfMin_total:
  "node < length (LowestSees r) \<Longrightarrow> \<exists>r' ok. setLowestSeesIfMin r node ref = Inr (r', ok)"
  by (auto simp: setLowestSeesIfMin_def)

lemma lowestSeesPass_total:
  assumes "node < L"
  shows "storeOK L es \<Longrightarrow> ranked rank es \<Longrightarrow> inWork es rank (Suc k) ps \<Longrightarrow>
         inWork es rank k next \<Longrightarrow>
         \<exists>es' next'. lowestSeesPass es node ref ps next = Inr (es', next') \<and>
                      inWork es' rank k next'"
proof (induction ps arbitrary: es "next")
  case Nil
  then show ?case by simp
next
  case (Cons p ps)
  from Cons.prems(3) obtain a r where a: "p = Some a" "es a = Some r" "rank a < Suc k"
    unfolding inWork_def by auto
  from Cons.prems(1) a(2) assms have "node < length (LowestSees r)"
    unfolding storeOK_def by auto
  then obtain r' ok where set: "setLowestSeesIfMin r node ref = Inr (r', ok)"
    using setLowestSeesIfMin_total by blast
  have rest: "inWork es rank (Suc k) ps"
    using Cons.prems(3) unfolding inWork_def by simp
  show ?case
  proof (cases ok)
    case False
    have eq: "lowestSeesPass es node ref (p # ps) next = lowestSeesPass es node ref ps next"
      using a set False by simp
    show ?thesis
      unfolding eq by (rule Cons.IH[OF Cons.prems(1,2) rest Cons.prems(4)])
  next
    case True
    let ?es1 = "es(a \<mapsto> r')"
    let ?next1 = "next @ map (lookup ?es1) (filter (\<lambda>p. p \<noteq> 0) (Parents r'))"
    have w: "walked node ref es ?es1"
      using a(2) setLowestSeesIfMin_lowered[OF set] by (rule walked_update)
    have ok1: "storeOK L ?es1" using w Cons.prems(1) by (rule walked_storeOK)
    have rk1: "ranked rank ?es1" using w Cons.prems(2) by (rule walked_ranked)
    have "?es1 a = Some r'" by simp
    from inWork_parents[OF ok1 rk1 this a(3)] inWork_walked[OF w Cons.prems(4)]
    have nx: "inWork ?es1 rank k ?next1" unfolding inWork_append by blast
    have eq: "lowestSeesPass es node ref (p # ps) next = lowestSeesPass ?es1 node ref ps ?next1"
      using a set True by simp
    show ?thesis
      unfolding eq by (rule Cons.IH[OF ok1 rk1 inWork_walked[OF w rest] nx])
  qed
qed

lemma lowestSeesLoop_total:
  assumes "node < L"
  shows "storeOK L es \<Longrightarrow> ranked rank es \<Longrightarrow> inWork es rank k toUpdate \<Longrightarrow>
         \<exists>es'. lowestSeesLoop es node ref toUpdate = Some (Inr es')"
proof (induction k arbitrary: es toUpdate)
  case 0
  then have "toUpdate = []" unfolding inWork_def by (cases toUpdate) auto
  then show ?case by (subst lowestSeesLoop.simps) simp
next
  case (Suc k)
  have "inWork es rank k []" by (simp add: inWork_def)
  from lowestSeesPass_total[OF assms Suc.prems(1,2,3) this]
  obtain es1 nxt where pass: "lowestSeesPass es node ref toUpdate [] = Inr (es1, nxt)"
    and nxt: "inWork es1 rank k nxt" by blast
  have w: "walked node ref es es1" using pass by (rule lowestSeesPass_walked)
  show ?case
  proof (cases "nxt = []")
    case True
    with pass show ?thesis by (subst lowestSeesLoop.simps) simp
  next
    case False
    from Suc.IH[OF walked_storeOK[OF w Suc.prems(1)] walked_ranked[OF w Suc.prems(2)] nxt]
    obtain es' where "lowestSeesLoop es1 node ref nxt = Some (Inr es')" by blast
    with pass False show ?thesis by (subst lowestSeesLoop.simps) simp
  qed
qed

lemma updateAllLowestSees_total:
  assumes "node < L" and "storeOK L es" and "ranked rank es" and "es p \<noteq> None"
  shows "\<exists>es'. updateAllLowestSees es (lookup es p) node ref = Some (Inr es')"
proof -
  have "lookup es p = Some p" using assms(4) by (auto simp: lookup_def)
  moreover have "inWork es rank (Suc (rank p)) [Some p]"
    using assms(4) by (simp add: inWork_def)
  ultimately show ?thesis
    using lowestSeesLoop_total[OF assms(1,2,3)] by (simp add: updateAllLowestSees_def)
qed

lemma updateAllHighestSeen_total:
  assumes "storeOK L es" and "es p \<noteq> None" and "length (HighestSeen e) = L"
  shows "\<exists>e'. updateAllHighestSeen es e (lookup es p) = Inr e'"
proof -
  from assms(2) obtain r where r: "es p = Some r" by blast
  with assms(1) have "length (HighestSeen r) = L" unfolding storeOK_def by blast
  with assms(3) obtain hs where "highestSeenLoop (HighestSeen e) 0 (HighestSeen r) = Inr hs"
    using highestSeenLoop_total[of 0 "HighestSeen r" "HighestSeen e"] by auto
  with r show ?thesis by (simp add: updateAllHighestSeen_def lookup_def)
qed

lemma fillParents_total:
  assumes "CreatorN e < L"
  shows "storeOK L es \<Longrightarrow> ranked rank es \<Longrightarrow> length (HighestSeen e) = L \<Longrightarrow>
         ((\<exists>p\<in>set ps. p \<noteq> 0 \<and> es p = None) \<longrightarrow>
            fillParents es e ps = Some (Inl Nil_dereference)) \<and>
         ((\<forall>p\<in>set ps. p \<noteq> 0 \<longrightarrow> es p \<noteq> None) \<longrightarrow>
            (\<exists>es' e'. fillParents es e ps = Some (Inr (es', e'))))"
  using assms
proof (induction ps arbitrary: es e)
  case Nil
  then show ?case by simp
next
  case (Cons p ps)
  show ?case
  proof (cases "p = 0")
    case True
    with Cons.IH[OF Cons.prems] show ?thesis by simp
  next
    case nz: False
    show ?thesis
    proof (cases "es p = None")
      case True
      then have "lookup es p = None" by (simp add: lookup_def)
      with nz True show ?thesis
        by (auto simp: updateAllLowestSees_def lowestSeesLoop_nil)
    next
      case False
      from updateAllLowestSees_total[OF Cons.prems(4,1,2) False]
      obtain es1 where low:
        "updateAllLowestSees es (lookup es p) (CreatorN e) (Index e) = Some (Inr es1)"
        by blast
      note w = updateAllLowestSees_Inr(2)[OF low]
      have ok1: "storeOK L es1" using w Cons.prems(1) by (rule walked_storeOK)
      have rk1: "ranked rank es1" using w Cons.prems(2) by (rule walked_ranked)
      have p1: "es1 p \<noteq> None" using walked_None[OF w] False by simp
      have lk: "lookup es p = lookup es1 p" using False p1 by (auto simp: lookup_def)
      from updateAllHighestSeen_total[OF ok1 p1 Cons.prems(3)]
      obtain e1 where high: "updateAllHighestSeen es1 e (lookup es p) = Inr e1"
        unfolding lk by blast
      note r = updateAllHighestSeen_Inr[OF high]
      have step: "fillParents es e (p # ps) = fillParents es1 e1 ps"
        using nz low high by simp
      have "length (HighestSeen e1) = L" "CreatorN e1 < L"
        using raised_fields(1,4)[OF r] Cons.prems(3,4) by simp_all
      from Cons.IH[OF ok1 rk1 this]
      have ih: "(\<exists>p\<in>set ps. p \<noteq> 0 \<and> es1 p = None) \<longrightarrow>
                  fillParents es1 e1 ps = Some (Inl Nil_dereference)"
        "(\<forall>p\<in>set ps. p \<noteq> 0 \<longrightarrow> es1 p \<noteq> None) \<longrightarrow>
            (\<exists>es' e'. fillParents es1 e1 ps = Some (Inr (es', e')))"
        by blast+
      have same: "\<And>q. (es1 q = None) = (es q = None)" using walked_None[OF w] .
      from ih have ih': "(\<exists>p\<in>set ps. p \<noteq> 0 \<and> es p = None) \<longrightarrow>
                  fillParents es1 e1 ps = Some (Inl Nil_dereference)"
        "(\<forall>p\<in>set ps. p \<noteq> 0 \<longrightarrow> es p \<noteq> None) \<longrightarrow>
            (\<exists>es' e'. fillParents es1 e1 ps = Some (Inr (es', e')))"
        unfolding same by blast+
      show ?thesis
        unfolding step using ih' False by auto
    qed
  qed
qed

subsection \<open>The concrete runs\<close>

lemma Add_exS0: "Add (Reset exMembers1) exE1 = Some (Inr exS1)"
  by (simp add: Add_def Reset_def exMembers1_def exE1_def newEvent_def setNodes_def
      fillEventRefs_def exS1_def exR1_def)

lemma Add_exS1: "Add exS1 exE2 = Some (Inr exS2)"
  by (simp add: Add_def exMembers1_def exE2_def newEvent_def setNodes_def fillEventRefs_def
      exS1_def exS2_def exR1_def exR1'_def exR2_def updateAllLowestSees_def lowestSeesLoop.simps
      lookup_def setLowestSeesIfMin_def updateAllHighestSeen_def fun_upd_twist)

lemma Add_exT0: "Add (Reset exMembers3) exE1 = Some (Inr exT1)"
  by (simp add: Add_def Reset_def exMembers3_def exE1_def newEvent_def setNodes_def
      fillEventRefs_def exT1_def)

lemma reachable_exS1: "reachable exS1"
  using reachable.add[OF reachable.reset Add_exS0] .

lemma reachable_exS2: "reachable exS2"
  using reachable.add[OF reachable_exS1 Add_exS1] .

lemma reachable_exT1: "reachable exT1"
  using reachable.add[OF reachable.reset Add_exT0] .

subsection \<open>The coherence test\<close>

lemma coherenceLoop_eq:
  "(\<forall>m\<in>fst ` set ms. slotOf (nodes ss) m < length (LowestSees b) \<and>
                      slotOf (nodes ss) m < length (HighestSeen a)) \<Longrightarrow>
   coherenceLoop ss (Some a) (Some b) ms c =
     Inr (c + sum_list (map (weightOf (members ss)) (filter (coherent ss a b) (map fst ms))))"
proof (induction ms arbitrary: c)
  case Nil
  then show ?case by simp
next
  case (Cons mw ms)
  from Cons.prems have rng: "slotOf (nodes ss) (fst mw) < length (LowestSees b)"
    "slotOf (nodes ss) (fst mw) < length (HighestSeen a)" by auto
  from Cons.prems have rest: "\<forall>m\<in>fst ` set ms. slotOf (nodes ss) m < length (LowestSees b) \<and>
                      slotOf (nodes ss) m < length (HighestSeen a)" by auto
  show ?case
    using rng Cons.IH[OF rest] by (auto simp: coherent_def Count_def)
qed

lemma wellFormed_slot:
  assumes "wellFormed ss" and "weights (members ss) \<noteq> []"
  shows "slotOf (nodes ss) m < length (weights (members ss))"
proof (cases "map_of (nodes ss) m")
  case None
  with assms(2) show ?thesis by (simp add: slotOf_def)
next
  case (Some n)
  then have "(m, n) \<in> set (nodes ss)" by (rule map_of_SomeD)
  then have "n \<in> set (map snd (nodes ss))" by force
  with assms(1) have "n < length (nodes ss)" unfolding wellFormed_def by simp
  with assms(1) Some show ?thesis unfolding wellFormed_def by (simp add: slotOf_def)
qed

lemma wellFormed_lengths:
  assumes "wellFormed ss" and "events ss h = Some r"
  shows "length (LowestSees r) = length (weights (members ss))"
    and "length (HighestSeen r) = length (weights (members ss))"
  using assms unfolding wellFormed_def storeOK_def by blast+

lemma See_wellFormed:
  assumes "wellFormed ss" and "events ss who = Some e1" and "events ss whom = Some e2"
  shows "See ss who whom = Inr (quorum (members ss) \<le> coherentWeight ss e1 e2)"
proof -
  have "\<forall>m\<in>fst ` set (weights (members ss)).
          slotOf (nodes ss) m < length (LowestSees e2) \<and>
          slotOf (nodes ss) m < length (HighestSeen e1)"
  proof
    fix m assume "m \<in> fst ` set (weights (members ss))"
    then have "weights (members ss) \<noteq> []" by auto
    from wellFormed_slot[OF assms(1) this, of m]
      wellFormed_lengths(1)[OF assms(1,3)] wellFormed_lengths(2)[OF assms(1,2)]
    show "slotOf (nodes ss) m < length (LowestSees e2) \<and>
          slotOf (nodes ss) m < length (HighestSeen e1)" by simp
  qed
  from coherenceLoop_eq[OF this, of 0] show ?thesis
    by (simp add: See_def sufficientCoherence_def assms(2,3) NewCounter_def HasMajority_def
        coherentWeight_def)
qed

text \<open>
  C1. The claim counts a validator when its own entries satisfy the test. The loop of
  \<open>sufficientCoherence\<close> reads a member that has no entry in the slot table at slot 0, the
  first creator's slot. With three validators of weight 1 and threshold 3, after the first
  event of validator 10 is added, the validators whose own entries pass weigh 1, below the
  threshold, yet \<open>See\<close> of the event and itself returns true: validators 20 and 30, which
  have no event, are counted through the entries of validator 10.
\<close>

theorem See_counts_members_without_events:
  "Add (Reset exMembers3) exE1 = Some (Inr exT1) \<and> events exT1 1 = Some exQ1 \<and>
   ownWeight exT1 exQ1 exQ1 = 1 \<and> quorum (members exT1) = 3 \<and>
   See exT1 1 1 = Inr True"
proof -
  have "events exT1 1 = Some exQ1" by (simp add: exT1_def exQ1_def)
  moreover have "ownWeight exT1 exQ1 exQ1 = 1"
    by (simp add: ownWeight_def ownCoherent_def exT1_def exQ1_def exMembers3_def weightOf_def)
  moreover have "quorum (members exT1) = 3" by (simp add: exT1_def exMembers3_def)
  moreover have "See exT1 1 1 = Inr True"
    by (simp add: See_def sufficientCoherence_def exT1_def exMembers3_def slotOf_def
        HasMajority_def NewCounter_def Count_def weightOf_def)
  ultimately show ?thesis using Add_exT0 by simp
qed

text \<open>
  C2, as the claim states it, fails: with a validator in the set, \<open>See\<close> on a hash that was
  never added dereferences the \<open>nil\<close> record, whichever argument the hash is.
\<close>

theorem See_unindexed_panics:
  "events exS1 7 = None \<and> See exS1 7 1 = Inl Nil_dereference \<and>
   See exS1 1 7 = Inl Nil_dereference"
  by (simp add: See_def sufficientCoherence_def exS1_def exMembers1_def exR1_def slotOf_def)

text \<open>
  C2, amended. When either hash has not been indexed, \<open>See\<close> fails with a nil dereference
  as soon as the validator set has a member; with an empty validator set the loop body
  never runs and \<open>See\<close> returns the majority test of the empty counter.
\<close>

theorem See_unindexed:
  assumes "reachable ss" and "events ss who = None \<or> events ss whom = None"
  shows "See ss who whom =
           (if weights (members ss) = [] then Inr (HasMajority (members ss) 0)
            else Inl Nil_dereference)"
proof (cases "weights (members ss)")
  case Nil
  then show ?thesis by (simp add: See_def sufficientCoherence_def NewCounter_def)
next
  case (Cons mw ms)
  note wf = reachable_wellFormed[OF assms(1)]
  have ne: "weights (members ss) \<noteq> []" using Cons by simp
  show ?thesis
  proof (cases "events ss whom")
    case None
    with Cons show ?thesis by (simp add: See_def sufficientCoherence_def)
  next
    case (Some b)
    with assms(2) have who: "events ss who = None" by simp
    from wellFormed_slot[OF wf ne, of "fst mw"] wellFormed_lengths(1)[OF wf Some]
    have "slotOf (nodes ss) (fst mw) < length (LowestSees b)" by simp
    with Cons Some who show ?thesis by (simp add: See_def sufficientCoherence_def)
  qed
qed

text \<open>Hash 7 was never added.\<close>

theorem See_unindexed_witness:
  "See exS1 7 1 = Inl Nil_dereference \<and> See (Reset \<lparr>weights = [], quorum = 1\<rparr>) 7 1 = Inr False"
proof -
  have 1: "events exS1 7 = None \<or> events exS1 1 = None" by (simp add: exS1_def)
  have 2: "events (Reset \<lparr>weights = [], quorum = 1\<rparr>) 7 = None \<or>
           events (Reset \<lparr>weights = [], quorum = 1\<rparr>) 1 = None" by (simp add: Reset_def)
  from See_unindexed[OF reachable_exS1 1] See_unindexed[OF reachable.reset 2]
  show ?thesis by (simp add: exS1_def exMembers1_def Reset_def HasMajority_def)
qed


subsection \<open>Self-coherence\<close>





subsection \<open>Monotonicity\<close>

text \<open>
  C4, as the claim states it, fails: adding the second event of a validator replaces the
  nonzero entry 1 of the first event's own slot of \<open>LowestSees\<close> by 2.
\<close>

theorem LowestSees_raised_by_Add:
  "Add exS1 exE2 = Some (Inr exS2) \<and> events exS1 1 = Some exR1 \<and>
   events exS2 1 = Some exR1' \<and> LowestSees exR1 ! 0 = 1 \<and> LowestSees exR1' ! 0 = 2"
  using Add_exS1 by (simp add: exS1_def exS2_def exR1_def exR1'_def)

text \<open>
  C4, amended. A later \<open>Add\<close> keeps every indexed record, never changes its \<open>HighestSeen\<close>,
  and leaves every nonzero \<open>LowestSees\<close> entry equal or smaller, except in the record's own
  creator slot while the entry is still at most the record's own sequence number: there
  the entry is replaced by the new event's sequence number.
\<close>

theorem Add_keeps_or_lowers:
  assumes "Add ss e = Some (Inr ss')" and "events ss h = Some r"
  shows "\<exists>r'. events ss' h = Some r' \<and> HighestSeen r' = HighestSeen r \<and>
           length (LowestSees r') = length (LowestSees r) \<and>
           (\<forall>n<length (LowestSees r). LowestSees r ! n \<noteq> 0 \<longrightarrow>
              LowestSees r' ! n \<le> LowestSees r ! n \<or>
              (n = CreatorN r \<and> LowestSees r ! n \<le> Index r \<and> LowestSees r' ! n = Index e))"
proof -
  from assms(1) obtain es' ev where new: "events ss (Hash e) = None"
    and w: "walked (creatorSlot ss e) (Index e) (events ss) es'"
    and ss': "ss' = \<lparr>members = members ss, nodes = nodesAfter ss e, events = es'(Hash e \<mapsto> ev)\<rparr>"
    by (rule Add_Inr)
  from new assms(2) have "h \<noteq> Hash e" by auto
  from walked_Some[OF w assms(2)] obtain r' where r': "es' h = Some r'"
    and l: "lowered (creatorSlot ss e) (Index e) r r'" by blast
  have 1: "events ss' h = Some r'" using r' \<open>h \<noteq> Hash e\<close> by (simp add: ss')
  have 2: "\<forall>n<length (LowestSees r). LowestSees r ! n \<noteq> 0 \<longrightarrow>
              LowestSees r' ! n \<le> LowestSees r ! n \<or>
              (n = CreatorN r \<and> LowestSees r ! n \<le> Index r \<and> LowestSees r' ! n = Index e)"
  proof (intro allI impI)
    fix n assume n: "n < length (LowestSees r)" "LowestSees r ! n \<noteq> 0"
    show "LowestSees r' ! n \<le> LowestSees r ! n \<or>
          (n = CreatorN r \<and> LowestSees r ! n \<le> Index r \<and> LowestSees r' ! n = Index e)"
    proof (cases "r' = r")
      case True
      then show ?thesis by simp
    next
      case False
      with l have acc: "accepted (creatorSlot ss e) (Index e) r"
        and r'eq: "r' = r\<lparr>LowestSees := (LowestSees r)[creatorSlot ss e := Index e]\<rparr>"
        unfolding lowered_def by blast+
      show ?thesis
      proof (cases "n = creatorSlot ss e")
        case True
        with n r'eq have "LowestSees r' ! n = Index e" by simp
        with acc True n(2) show ?thesis unfolding accepted_def by auto
      next
        case False
        with r'eq have "LowestSees r' ! n = LowestSees r ! n" by simp
        then show ?thesis by simp
      qed
    qed
  qed
  from 1 2 lowered_fields(3,4)[OF l] show ?thesis by blast
qed

text \<open>The first event's record across the second \<open>Add\<close>.\<close>

theorem Add_keeps_or_lowers_witness:
  "\<exists>r'. events exS2 1 = Some r' \<and> HighestSeen r' = [1] \<and> length (LowestSees r') = 1 \<and>
        (LowestSees r' ! 0 \<le> 1 \<or> LowestSees r' ! 0 = 2)"
proof -
  have "events exS1 1 = Some exR1" by (simp add: exS1_def)
  from Add_keeps_or_lowers[OF Add_exS1 this]
  show ?thesis by (simp add: exR1_def exE2_def)
qed


subsection \<open>Termination\<close>

lemma Add_total:
  assumes "wellFormed ss" and "events ss (Hash e) = None"
    and "creatorSlot ss e < length (weights (members ss))"
  shows "((\<exists>p\<in>set (Parents e). p \<noteq> 0 \<and> events ss p = None) \<longrightarrow>
            Add ss e = Some (Inl Nil_dereference)) \<and>
         ((\<forall>p\<in>set (Parents e). p \<noteq> 0 \<longrightarrow> events ss p \<noteq> None) \<longrightarrow>
            (\<exists>ss'. Add ss e = Some (Inr ss')))"
proof -
  let ?L = "length (weights (members ss))"
  from assms(1) obtain rank where ok: "storeOK ?L (events ss)" and rk: "ranked rank (events ss)"
    unfolding wellFormed_def by blast
  have c: "CreatorN (seeded ss e) < ?L" using assms(3) by (simp add: seeded_fields)
  have len: "length (HighestSeen (seeded ss e)) = ?L" by (simp add: seeded_fields)
  from fillParents_total[OF c ok rk len, of "Parents e"] assms(2,3)
  show ?thesis by (auto simp: Add_eq)
qed

text \<open>
  C5. In every state built by \<open>Reset\<close> and successful \<open>Add\<close>s, \<open>Add\<close> returns (a new state
  or an error); a walk started at any indexed record for a slot in range reaches an empty
  worklist; and a record at which \<open>setLowestSeesIfMin\<close> did not accept the update adds
  nothing to the next worklist.
\<close>

theorem Add_walk_terminates:
  assumes "reachable ss"
  shows "(\<exists>res. Add ss e = Some res) \<and>
         (\<forall>p node ref. events ss p \<noteq> None \<and> node < length (weights (members ss)) \<longrightarrow>
            (\<exists>es'. updateAllLowestSees (events ss) (lookup (events ss) p) node ref =
                      Some (Inr es'))) \<and>
         (\<forall>a r node ref r' ps next.
            events ss a = Some r \<and> setLowestSeesIfMin r node ref = Inr (r', False) \<longrightarrow>
            lowestSeesPass (events ss) node ref (Some a # ps) next =
              lowestSeesPass (events ss) node ref ps next)"
proof -
  let ?L = "length (weights (members ss))"
  have wf: "wellFormed ss" using assms by (rule reachable_wellFormed)
  then obtain rank where ok: "storeOK ?L (events ss)" and rk: "ranked rank (events ss)"
    unfolding wellFormed_def by blast
  have 1: "\<exists>res. Add ss e = Some res"
  proof (cases "events ss (Hash e) = None \<and> creatorSlot ss e < ?L")
    case True
    then have "events ss (Hash e) = None" "creatorSlot ss e < ?L" by simp_all
    from Add_total[OF wf this] show ?thesis
      by (cases "\<exists>p\<in>set (Parents e). p \<noteq> 0 \<and> events ss p = None") auto
  next
    case False
    then show ?thesis by (auto simp: Add_eq)
  qed
  have 2: "\<exists>es'. updateAllLowestSees (events ss) (lookup (events ss) p) node ref = Some (Inr es')"
    if "events ss p \<noteq> None" "node < ?L" for p node ref
    using that(2) ok rk that(1) by (rule updateAllLowestSees_total)
  have 3: "lowestSeesPass (events ss) node ref (Some a # ps) next =
             lowestSeesPass (events ss) node ref ps next"
    if "events ss a = Some r" "setLowestSeesIfMin r node ref = Inr (r', False)"
    for a r node ref r' ps "next"
    using that by simp
  from 1 2 3 show ?thesis by blast
qed

text \<open>A third event on top of the two indexed ones.\<close>

theorem Add_walk_terminates_witness:
  "(\<exists>res. Add exS2 \<lparr>Hash = 3, Creator = 10, Index = 3, Parents = [2]\<rparr> = Some res) \<and>
   (\<exists>es'. updateAllLowestSees (events exS2) (lookup (events exS2) 2) 0 3 = Some (Inr es'))"
proof -
  have "events exS2 2 \<noteq> None \<and> (0::nat) < length (weights (members exS2))"
    by (simp add: exS2_def exMembers1_def)
  with Add_walk_terminates[OF reachable_exS2, of "\<lparr>Hash = 3, Creator = 10, Index = 3, Parents = [2]\<rparr>"]
  show ?thesis by blast
qed

subsection \<open>Creator slots\<close>

lemma wellFormed_creators:
  assumes "wellFormed ss"
  shows "creators ss = fst ` set (nodes ss)" and "card (creators ss) = length (nodes ss)"
    and "(map_of (nodes ss) m = None) = (m \<notin> creators ss)"
proof -
  show 1: "creators ss = fst ` set (nodes ss)"
    using assms unfolding wellFormed_def creators_def by simp
  have "distinct (map fst (nodes ss))" using assms unfolding wellFormed_def by simp
  then have "card (set (map fst (nodes ss))) = length (map fst (nodes ss))"
    by (rule distinct_card)
  with 1 show "card (creators ss) = length (nodes ss)" by simp
  show "(map_of (nodes ss) m = None) = (m \<notin> creators ss)"
    unfolding 1 by (rule map_of_eq_None_iff)
qed

text \<open>
  C9. Every indexed record has both arrays of the validator-set size; the slots handed out
  are \<open>0, 1, ...\<close> in the order the creators were first seen, one per distinct creator;
  the number of distinct creators indexed never exceeds the validator-set size; and \<open>Add\<close> of a new event goes out of
  range at the creator slot exactly when the creator is a further distinct one and the
  number of distinct creators has already reached the validator-set size.
\<close>

theorem Add_out_of_range_iff:
  assumes "reachable ss"
  shows "(\<forall>h r. events ss h = Some r \<longrightarrow>
            length (LowestSees r) = length (weights (members ss)) \<and>
            length (HighestSeen r) = length (weights (members ss))) \<and>
         map snd (nodes ss) = [0..<card (creators ss)] \<and>
         card (creators ss) \<le> length (weights (members ss)) \<and>
         (events ss (Hash e) = None \<longrightarrow>
            (Add ss e = Some (Inl Index_out_of_range) \<longleftrightarrow>
               Creator e \<notin> creators ss \<and> card (creators ss) = length (weights (members ss))))"
proof -
  let ?L = "length (weights (members ss))"
  have wf: "wellFormed ss" using assms by (rule reachable_wellFormed)
  note cr = wellFormed_creators[OF wf]
  have 1: "\<forall>h r. events ss h = Some r \<longrightarrow>
             length (LowestSees r) = ?L \<and> length (HighestSeen r) = ?L"
    using wf unfolding wellFormed_def storeOK_def by blast
  have le: "length (nodes ss) \<le> ?L" using wf unfolding wellFormed_def by simp
  have slot: "?L \<le> creatorSlot ss e \<longleftrightarrow>
                map_of (nodes ss) (Creator e) = None \<and> length (nodes ss) = ?L"
  proof (cases "map_of (nodes ss) (Creator e)")
    case None
    with le show ?thesis by (auto simp: creatorSlot_def)
  next
    case (Some n)
    then have "(Creator e, n) \<in> set (nodes ss)" by (rule map_of_SomeD)
    then have "n \<in> set (map snd (nodes ss))" by force
    with wf have "n < length (nodes ss)" unfolding wellFormed_def by simp
    with Some le show ?thesis by (simp add: creatorSlot_def)
  qed
  have 3: "Add ss e = Some (Inl Index_out_of_range) \<longleftrightarrow>
             Creator e \<notin> creators ss \<and> card (creators ss) = ?L"
    if new: "events ss (Hash e) = None"
  proof (cases "?L \<le> creatorSlot ss e")
    case True
    with new slot cr show ?thesis by (simp add: Add_eq)
  next
    case False
    then have "creatorSlot ss e < ?L" by simp
    from Add_total[OF wf new this] have "Add ss e \<noteq> Some (Inl Index_out_of_range)"
      by (cases "\<exists>p\<in>set (Parents e). p \<noteq> 0 \<and> events ss p = None") auto
    with False slot cr show ?thesis by simp
  qed
  have 4: "map snd (nodes ss) = [0..<card (creators ss)]"
    using wf cr(2) unfolding wellFormed_def by simp
  from 1 le 3 4 cr(2) show ?thesis by simp
qed

text \<open>With one validator and one creator indexed, an event of a second creator is out of
  range.\<close>

theorem Add_out_of_range_iff_witness:
  "Add exS1 exE3 = Some (Inl Index_out_of_range)"
proof -
  have cr: "creators exS1 = {10}"
    using wellFormed_creators(1)[OF reachable_wellFormed[OF reachable_exS1]]
    by (simp add: exS1_def)
  have "events exS1 (Hash exE3) = None" by (simp add: exS1_def exE3_def)
  with Add_out_of_range_iff[OF reachable_exS1, of exE3] cr
  show ?thesis by (simp add: exE3_def exS1_def exMembers1_def)
qed


subsection \<open>Members without a slot\<close>

lemma sum_list_filter_split:
  fixes f :: "'a \<Rightarrow> nat"
  shows "sum_list (map f (filter P xs)) =
     sum_list (map f (filter (\<lambda>x. Q x \<and> P x) xs)) +
     sum_list (map f (filter (\<lambda>x. \<not> Q x \<and> P x) xs))"
  by (induction xs) auto

text \<open>
  C10. A member that has created no indexed event has no entry in the slot table and is
  mapped to slot 0; \<open>See\<close> counts the whole weight of these members exactly when the
  entries of slot 0 pass the test, on top of the members that pass it at their own slot.
\<close>

theorem See_counts_unseen_at_slot_0:
  assumes "reachable ss" and "events ss who = Some e1" and "events ss whom = Some e2"
  shows "(\<forall>m. m \<notin> creators ss \<longrightarrow> slotOf (nodes ss) m = 0) \<and>
         (\<forall>m. (map_of (nodes ss) m = None) = (m \<notin> creators ss)) \<and>
         See ss who whom =
           Inr (quorum (members ss) \<le>
                  seenWeight ss e1 e2 +
                  (if LowestSees e2 ! 0 \<noteq> 0 \<and> LowestSees e2 ! 0 \<le> HighestSeen e1 ! 0
                   then unseenWeight ss else 0))"
proof -
  have wf: "wellFormed ss" using assms(1) by (rule reachable_wellFormed)
  note cr = wellFormed_creators(3)[OF wf]
  have 1: "\<forall>m. m \<notin> creators ss \<longrightarrow> slotOf (nodes ss) m = 0"
    by (simp add: slotOf_def cr[symmetric])
  let ?ms = "map fst (weights (members ss))"
  let ?w = "weightOf (members ss)"
  let ?t0 = "LowestSees e2 ! 0 \<noteq> 0 \<and> LowestSees e2 ! 0 \<le> HighestSeen e1 ! 0"
  have un: "(map_of (nodes ss) m = None \<and> coherent ss e1 e2 m) =
            (?t0 \<and> map_of (nodes ss) m = None)" for m
    by (auto simp: coherent_def slotOf_def)
  have "coherentWeight ss e1 e2 =
          sum_list (map ?w (filter (\<lambda>m. map_of (nodes ss) m \<noteq> None \<and> coherent ss e1 e2 m) ?ms)) +
          sum_list (map ?w (filter (\<lambda>m. \<not> map_of (nodes ss) m \<noteq> None \<and> coherent ss e1 e2 m) ?ms))"
    unfolding coherentWeight_def by (rule sum_list_filter_split)
  also have "\<dots> = seenWeight ss e1 e2 + (if ?t0 then unseenWeight ss else 0)"
    by (simp add: seenWeight_def unseenWeight_def un)
  finally have "coherentWeight ss e1 e2 =
                  seenWeight ss e1 e2 + (if ?t0 then unseenWeight ss else 0)" .
  with See_wellFormed[OF wf assms(2,3)] 1 cr show ?thesis by simp
qed

text \<open>Only validator 10 has an event, yet the weight of validators 20 and 30 is counted
  and the threshold 3 is reached.\<close>

theorem See_counts_unseen_at_slot_0_witness:
  "unseenWeight exT1 = 2 \<and> See exT1 1 1 = Inr True"
proof -
  have ev: "events exT1 1 = Some \<lparr>Hash = 1, Creator = 10, Index = 1, Parents = [],
                             CreatorN = 0, LowestSees = [1, 0, 0], HighestSeen = [1, 0, 0]\<rparr>"
    by (simp add: exT1_def)
  have un: "unseenWeight exT1 = 2"
    by (simp add: unseenWeight_def exT1_def exMembers3_def weightOf_def)
  have "seenWeight exT1 \<lparr>Hash = 1, Creator = 10, Index = 1, Parents = [],
                             CreatorN = 0, LowestSees = [1, 0, 0], HighestSeen = [1, 0, 0]\<rparr>
          \<lparr>Hash = 1, Creator = 10, Index = 1, Parents = [],
                             CreatorN = 0, LowestSees = [1, 0, 0], HighestSeen = [1, 0, 0]\<rparr> = 1"
    by (simp add: seenWeight_def exT1_def exMembers3_def weightOf_def coherent_def slotOf_def)
  with See_counts_unseen_at_slot_0[OF reachable_exT1 ev ev] un
  show ?thesis by (simp add: exT1_def exMembers3_def)
qed

subsection \<open>When every member has an event\<close>

text \<open>Once every member of the validator set has created an indexed event, every member
  is read at its own slot, and \<open>See\<close> is the weighted count of the spec.\<close>

lemma See_own_weight_when_all_created:
  assumes "reachable ss" and "events ss who = Some e1" and "events ss whom = Some e2"
    and "\<forall>m\<in>fst ` set (weights (members ss)). m \<in> creators ss"
  shows "See ss who whom = Inr (quorum (members ss) \<le> ownWeight ss e1 e2)"
proof -
  have wf: "wellFormed ss" using assms(1) by (rule reachable_wellFormed)
  have "coherent ss e1 e2 m = ownCoherent ss e1 e2 m"
    if "m \<in> set (map fst (weights (members ss)))" for m
  proof -
    from that have "m \<in> fst ` set (weights (members ss))" by simp
    with assms(4) have "m \<in> creators ss" by blast
    with wellFormed_creators(3)[OF wf, of m] obtain n where "map_of (nodes ss) m = Some n"
      by auto
    then show ?thesis by (simp add: coherent_def ownCoherent_def slotOf_def)
  qed
  then have "filter (coherent ss e1 e2) (map fst (weights (members ss))) =
             filter (ownCoherent ss e1 e2) (map fst (weights (members ss)))"
    by (intro filter_cong) auto
  then have "coherentWeight ss e1 e2 = ownWeight ss e1 e2"
    by (simp add: coherentWeight_def ownWeight_def)
  with See_wellFormed[OF wf assms(2,3)] show ?thesis by simp
qed

text \<open>The second event of the single validator strongly sees the first.\<close>

lemma See_own_weight_when_all_created_example: "See exS2 2 1 = Inr True"
proof -
  have cr: "creators exS2 = {10}"
    using wellFormed_creators(1)[OF reachable_wellFormed[OF reachable_exS2]]
    by (simp add: exS2_def)
  have ev: "events exS2 2 = Some exR2" "events exS2 1 = Some exR1'"
    by (simp_all add: exS2_def)
  have "fst ` set (weights (members exS2)) = {10}"
    by (simp add: exS2_def exMembers1_def)
  with cr have "\<forall>m\<in>fst ` set (weights (members exS2)). m \<in> creators exS2"
    by simp
  from See_own_weight_when_all_created[OF reachable_exS2 ev this]
  show ?thesis
    by (simp add: ownWeight_def ownCoherent_def exS2_def exMembers1_def exR2_def exR1'_def
        weightOf_def)
qed

end
